theory Spec2Isabelle
  imports Complex_Main "HOL-Library.Word" "HOL-Library.Log_Nat" "HOL-Library.Multiset"
begin

section \<open>Metrics of the VPA Recommender\<close>

text \<open>
  A shallow embedding of \<^verbatim>\<open>pkg/utils/metrics/recommender/recommender.go\<close>: the quantity
  conversion \<^verbatim>\<open>toFloat64\<close>, the gauge writes of \<^verbatim>\<open>ObserveVPARecommendation\<close>, and the
  bucket counter \<^verbatim>\<open>ObjectCounter\<close> with \<^verbatim>\<open>NewObjectCounter\<close>, \<^verbatim>\<open>Add\<close> and \<^verbatim>\<open>Observe\<close>.
\<close>

subsection \<open>Machine numbers\<close>

text \<open>
  Go's \<^verbatim>\<open>int64\<close> is a 64-bit word read in two's complement (\<open>sint\<close>); \<open>+\<close> wraps around.
  Go's \<^verbatim>\<open>int\<close> is taken at its width on 64-bit platforms, which is again 64 bits.
\<close>

type_synonym int64 = "64 word"
type_synonym go_int = "64 word"

text \<open>
  A finite \<^verbatim>\<open>float64\<close> is modelled by the rational number it denotes. The two operations
  the source uses, the conversion \<^verbatim>\<open>float64(v)\<close> of an integer and the product of two
  floats, round the exact result to the nearest number with a 53-bit significand, ties
  to the even significand (IEEE 754 binary64, the rounding Go prescribes). The exponent
  range is not modelled: every value that occurs below has a magnitude between
  \<open>2\<^sup>-\<^sup>1\<^sup>0\<close> and \<open>2\<^sup>6\<^sup>3\<close>, or is zero, far from overflow and from the subnormal numbers.
\<close>

type_synonym float64 = rat

text \<open>
  The quotient \<open>n / d\<close> of a non-negative integer \<open>n\<close> by a positive \<open>d\<close>, rounded to the
  nearest integer, ties to even.
\<close>

definition round_half_even_div :: "int \<Rightarrow> int \<Rightarrow> int" where
  "round_half_even_div n d =
     (let q = n div d; r = n mod d
      in if 2 * r < d then q
         else if d < 2 * r then q + 1
         else if even q then q else q + 1)"

text \<open>
  A non-negative integer \<open>n\<close> rounded to 53 significant bits: with \<open>b\<close> the bit length of
  \<open>n\<close>, the nearest multiple of \<open>2\<^bsup>b - 53\<^esup>\<close>, ties to the even multiple (\<open>n\<close> itself when
  \<open>b \<le> 53\<close>).
\<close>

definition round_sig53 :: "int \<Rightarrow> int" where
  "round_sig53 n =
     (let s = nat (bitlen n - 53)
      in round_half_even_div n (2 ^ s) * 2 ^ s)"

text \<open>An integer rounded to 53 significant bits: the sign is kept, the magnitude is rounded.\<close>

definition round_int53 :: "int \<Rightarrow> int" where
  "round_int53 i = sgn i * round_sig53 \<bar>i\<bar>"

text \<open>
  Rounding of an exact result \<open>x\<close> to \<^verbatim>\<open>float64\<close>. The exact results that occur are
  integers and products of two floats, so in lowest terms the denominator of \<open>x\<close> is a
  power of two, and rounding \<open>x\<close> to 53 significant bits is rounding its numerator.
\<close>

definition float64_round :: "rat \<Rightarrow> float64" where
  "float64_round x =
     (let (p, q) = quotient_of x
      in of_int (round_int53 p) / of_int q)"

definition float64_of_int64 :: "int64 \<Rightarrow> float64" where
  "float64_of_int64 v = float64_round (of_int (sint v))"

definition float64_mul :: "float64 \<Rightarrow> float64 \<Rightarrow> float64" where
  "float64_mul x y = float64_round (x * y)"

text \<open>
  The constant \<^verbatim>\<open>0.001\<close> as a \<^verbatim>\<open>float64\<close>: the nearest float to one thousandth,
  \<open>0x3F50624DD2F1A9FC\<close>, which is \<open>1152921504606847 / 2\<^sup>6\<^sup>0\<close>.
\<close>

definition float64_0_001 :: float64 where
  "float64_0_001 = 1152921504606847 / 2 ^ 60"

subsection \<open>The metric sink\<close>

text \<open>
  A Prometheus \<^verbatim>\<open>GaugeVec\<close> is a black box that accepts
  \<^verbatim>\<open>WithLabelValues(l1, ..., ln).Set(v)\<close>. It is modelled by the sequence of the writes it
  has received, oldest first; the value of a gauge is the one written last under its
  label tuple.
\<close>

type_synonym GaugeVec = "(string list \<times> float64) list"

definition WithLabelValues_Set :: "GaugeVec \<Rightarrow> string list \<Rightarrow> float64 \<Rightarrow> GaugeVec" where
  "WithLabelValues_Set g lvs v = g @ [(lvs, v)]"

definition gauge_value :: "GaugeVec \<Rightarrow> string list \<Rightarrow> float64 option" where
  "gauge_value g lvs = map_of (rev g) lvs"

subsection \<open>Quantities and \<^verbatim>\<open>toFloat64\<close>\<close>

text \<open>
  \<^verbatim>\<open>resource.Quantity\<close> belongs to the Kubernetes API machinery. \<^verbatim>\<open>toFloat64\<close> reads a
  quantity through its accessors \<^verbatim>\<open>Value()\<close> and \<^verbatim>\<open>MilliValue()\<close> only, both \<^verbatim>\<open>int64\<close>;
  a quantity is the pair of what they return.
\<close>

record Quantity =
  Value :: int64
  MilliValue :: int64

definition toFloat64 :: "Quantity \<Rightarrow> float64" where
  "toFloat64 q =
     (let v = Value q
      in if 10000000 <s v then float64_of_int64 v
         else float64_mul (float64_of_int64 (MilliValue q)) float64_0_001)"

subsection \<open>The managed object\<close>

text \<open>
  Modelled from the spec: the declarations of \<^verbatim>\<open>model.Vpa\<close>, of the container
  recommendations and of the update modes are in packages that are not among the
  sources. The spec's data model gives a managed object an identity (name, namespace),
  an optional operating mode, a pod-selector string, and zero or more container
  recommendations, each with a container name and the three bands lower bound, target
  and upper bound, each band holding a CPU and a memory quantity. The fields below are
  what the source reads: \<open>PodSelector\<close> is the string \<^verbatim>\<open>vpa.PodSelector.String()\<close>,
  \<open>Cpu\<close> and \<open>Memory\<close> are what \<^verbatim>\<open>Cpu()\<close> and \<^verbatim>\<open>Memory()\<close> return, \<open>HasRecommendation\<close> is
  what \<^verbatim>\<open>vpa.HasRecommendation()\<close> returns, and \<open>UpdateMode\<close> is \<open>None\<close> for the nil
  pointer. The source reaches the container recommendations in two steps,
  \<^verbatim>\<open>vpa.Recommendation.ContainerRecommendations\<close>: \<open>Recommendation\<close> is a reference that
  is nil, here \<open>None\<close>, as long as the object has no recommendation, and the list it
  leads to may be empty. The reference \<^verbatim>\<open>vpa\<close> itself is not nil.
\<close>

record ResourceList =
  Cpu :: Quantity
  Memory :: Quantity

record RecommendedContainerResources =
  ContainerName :: string
  Target :: ResourceList
  LowerBound :: ResourceList
  UpperBound :: ResourceList

record VpaID =
  Namespace :: string
  VpaName :: string

record RecommendedPodResources =
  ContainerRecommendations :: "RecommendedContainerResources list"

record Vpa =
  ID :: VpaID
  PodSelector :: string
  UpdateMode :: "string option"
  Recommendation :: "RecommendedPodResources option"
  HasRecommendation :: bool

text \<open>
  Modelled from the spec: the four recognised operating modes Off, Initial, Recreate and
  Auto, as the strings of the constants \<^verbatim>\<open>vpa_types.UpdateModeOff\<close> and so on.
\<close>

definition UpdateModeOff :: string where "UpdateModeOff = ''Off''"
definition UpdateModeInitial :: string where "UpdateModeInitial = ''Initial''"
definition UpdateModeRecreate :: string where "UpdateModeRecreate = ''Recreate''"
definition UpdateModeAuto :: string where "UpdateModeAuto = ''Auto''"

definition modes :: "string list" where
  "modes = [UpdateModeOff, UpdateModeInitial, UpdateModeRecreate, UpdateModeAuto]"

subsection \<open>\<^verbatim>\<open>ObserveVPARecommendation\<close>\<close>

text \<open>One pass of the loop body: six writes, in the order of the source.\<close>

definition observe_container ::
  "Vpa \<Rightarrow> RecommendedContainerResources \<Rightarrow> GaugeVec \<Rightarrow> GaugeVec" where
  "observe_container vpa r g0 =
     (let g1 = WithLabelValues_Set g0
            [VpaName (ID vpa), Namespace (ID vpa), PodSelector vpa, ContainerName r,
             ''lower_bound'', ''cpu'']
            (toFloat64 (Cpu (LowerBound r)));
          g2 = WithLabelValues_Set g1
            [VpaName (ID vpa), Namespace (ID vpa), PodSelector vpa, ContainerName r,
             ''lower_bound'', ''memory'']
            (toFloat64 (Memory (LowerBound r)));
          g3 = WithLabelValues_Set g2
            [VpaName (ID vpa), Namespace (ID vpa), PodSelector vpa, ContainerName r,
             ''target'', ''cpu'']
            (toFloat64 (Cpu (Target r)));
          g4 = WithLabelValues_Set g3
            [VpaName (ID vpa), Namespace (ID vpa), PodSelector vpa, ContainerName r,
             ''target'', ''memory'']
            (toFloat64 (Memory (Target r)));
          g5 = WithLabelValues_Set g4
            [VpaName (ID vpa), Namespace (ID vpa), PodSelector vpa, ContainerName r,
             ''upper_bound'', ''cpu'']
            (toFloat64 (Cpu (UpperBound r)));
          g6 = WithLabelValues_Set g5
            [VpaName (ID vpa), Namespace (ID vpa), PodSelector vpa, ContainerName r,
             ''upper_bound'', ''memory'']
            (toFloat64 (Memory (UpperBound r)))
      in g6)"

fun observe_containers ::
  "Vpa \<Rightarrow> RecommendedContainerResources list \<Rightarrow> GaugeVec \<Rightarrow> GaugeVec" where
  "observe_containers vpa [] g = g"
| "observe_containers vpa (r # rs) g = observe_containers vpa rs (observe_container vpa r g)"

text \<open>
  The function returns nothing. It panics when it reads a field through the nil
  reference \<^verbatim>\<open>vpa.Recommendation\<close>, which happens in the loop header, before any write.
  The model returns the outcome of the call, \<open>None\<close> when it returns and the panic when
  it does not, together with the gauge vector \<^verbatim>\<open>vpaContainerRecommendations\<close> after it.
\<close>

datatype panic = NilPointerDereference

definition ObserveVPARecommendation :: "Vpa \<Rightarrow> GaugeVec \<Rightarrow> panic option \<times> GaugeVec" where
  "ObserveVPARecommendation vpa vpaContainerRecommendations =
     (case Recommendation vpa of
        None \<Rightarrow> (Some NilPointerDereference, vpaContainerRecommendations)
      | Some rec \<Rightarrow>
          (None, observe_containers vpa (ContainerRecommendations rec) vpaContainerRecommendations))"

subsection \<open>\<^verbatim>\<open>ObjectCounter\<close>\<close>

record objectCounterKey =
  mode :: string
  has :: bool

record ObjectCounter =
  cnt :: "objectCounterKey \<rightharpoonup> go_int"

text \<open>The loop of \<^verbatim>\<open>NewObjectCounter\<close> over \<^verbatim>\<open>modes\<close>: two entries per mode, both 0.\<close>

fun seed_modes :: "string list \<Rightarrow> ObjectCounter \<Rightarrow> ObjectCounter" where
  "seed_modes [] obj = obj"
| "seed_modes (m # ms) obj =
     (let obj1 = obj\<lparr>cnt := (cnt obj)(\<lparr>mode = m, has = False\<rparr> \<mapsto> 0)\<rparr>;
          obj2 = obj1\<lparr>cnt := (cnt obj1)(\<lparr>mode = m, has = True\<rparr> \<mapsto> 0)\<rparr>
      in seed_modes ms obj2)"

definition NewObjectCounter :: ObjectCounter where
  "NewObjectCounter = seed_modes modes \<lparr>cnt = Map.empty\<rparr>"

text \<open>Reading \<^verbatim>\<open>m[k]\<close> from a Go map of integers: a key that is not in the map reads as 0.\<close>

definition index_or_zero :: "('k \<rightharpoonup> go_int) \<Rightarrow> 'k \<Rightarrow> go_int" where
  "index_or_zero m k = (case m k of None \<Rightarrow> 0 | Some c \<Rightarrow> c)"

text \<open>
  \<^verbatim>\<open>oc.cnt[key]++\<close> reads the count of the key, adds one and stores the result under the
  key.
\<close>

definition Add :: "ObjectCounter \<Rightarrow> Vpa \<Rightarrow> ObjectCounter" where
  "Add oc vpa =
     (let mode = (case UpdateMode vpa of None \<Rightarrow> '''' | Some m \<Rightarrow> m);
          key = \<lparr>mode = mode, has = HasRecommendation vpa\<rparr>
      in oc\<lparr>cnt := (cnt oc)(key \<mapsto> index_or_zero (cnt oc) key + 1)\<rparr>)"

text \<open>\<^verbatim>\<open>fmt.Sprintf("%v", b)\<close> for a boolean \<open>b\<close>.\<close>

definition Sprintf_v :: "bool \<Rightarrow> string" where
  "Sprintf_v b = (if b then ''true'' else ''false'')"

text \<open>
  \<^verbatim>\<open>for k, v := range oc.cnt\<close> visits every entry of the map once, in an order Go leaves
  unspecified. The order is a parameter of the model: \<open>range_order m ks\<close> says that \<open>ks\<close>
  lists the keys of \<open>m\<close>, each once, and \<open>range_entries m ks\<close> are the pairs of key and
  value the loop body sees, in that order.
\<close>

definition range_order :: "('k \<rightharpoonup> 'v) \<Rightarrow> 'k list \<Rightarrow> bool" where
  "range_order m ks \<longleftrightarrow> distinct ks \<and> set ks = dom m"

definition range_entries :: "('k \<rightharpoonup> 'v) \<Rightarrow> 'k list \<Rightarrow> ('k \<times> 'v) list" where
  "range_entries m ks = concat (map (\<lambda>k. case m k of None \<Rightarrow> [] | Some v \<Rightarrow> [(k, v)]) ks)"

fun observe_entries :: "(objectCounterKey \<times> go_int) list \<Rightarrow> GaugeVec \<Rightarrow> GaugeVec" where
  "observe_entries [] g = g"
| "observe_entries ((k, v) # kvs) g =
     observe_entries kvs (WithLabelValues_Set g [mode k, Sprintf_v (has k)] (float64_of_int64 v))"

text \<open>
  \<^verbatim>\<open>Observe\<close> has a pointer receiver; the model returns the counter after the call
  together with the gauge vector \<^verbatim>\<open>vpaObjectCount\<close> after it.
\<close>

definition Observe ::
  "objectCounterKey list \<Rightarrow> ObjectCounter \<Rightarrow> GaugeVec \<Rightarrow> ObjectCounter \<times> GaugeVec" where
  "Observe ks oc vpaObjectCount =
     (oc, observe_entries (range_entries (cnt oc) ks) vpaObjectCount)"

text \<open>A list of pairs that holds the entries of a map, each key once.\<close>

definition lists_entries :: "('k \<rightharpoonup> 'v) \<Rightarrow> ('k \<times> 'v) list \<Rightarrow> bool" where
  "lists_entries m kvs \<longleftrightarrow> distinct (map fst kvs) \<and> map_of kvs = m"

text \<open>A sequence of \<^verbatim>\<open>Add\<close> calls, one per object, in the order of the list.\<close>

fun AddAll :: "ObjectCounter \<Rightarrow> Vpa list \<Rightarrow> ObjectCounter" where
  "AddAll oc [] = oc"
| "AddAll oc (vpa # vpas) = AddAll (Add oc vpa) vpas"

text \<open>The bucket key \<^verbatim>\<open>Add\<close> forms for an object.\<close>

definition bucket_key :: "Vpa \<Rightarrow> objectCounterKey" where
  "bucket_key vpa =
     \<lparr>mode = (case UpdateMode vpa of None \<Rightarrow> '''' | Some m \<Rightarrow> m), has = HasRecommendation vpa\<rparr>"

subsection \<open>Example inputs\<close>

text \<open>The eight pre-seeded keys, in one order \<^verbatim>\<open>range\<close> may visit them.\<close>

definition seeded_keys :: "objectCounterKey list" where
  "seeded_keys =
     [\<lparr>mode = ''Off'', has = False\<rparr>, \<lparr>mode = ''Off'', has = True\<rparr>,
      \<lparr>mode = ''Initial'', has = False\<rparr>, \<lparr>mode = ''Initial'', has = True\<rparr>,
      \<lparr>mode = ''Recreate'', has = False\<rparr>, \<lparr>mode = ''Recreate'', has = True\<rparr>,
      \<lparr>mode = ''Auto'', has = False\<rparr>, \<lparr>mode = ''Auto'', has = True\<rparr>]"

text \<open>
  The quantities of the spec's scenario. A CPU quantity of \<open>n\<close> milli-units, for \<open>n\<close> from 1
  to 1000, has the plain value 1 (rounded up): 100m is a plain value of 1 and 100
  milli-units. A memory quantity of \<open>n\<close> bytes, for \<open>n\<close> up to \<open>2\<^sup>5\<^sup>0\<close>, has \<open>1000 * n\<close>
  milli-units.
\<close>

definition cpu_milli :: "int64 \<Rightarrow> Quantity" where
  "cpu_milli n = \<lparr>Value = 1, MilliValue = n\<rparr>"

definition memory_bytes :: "int64 \<Rightarrow> Quantity" where
  "memory_bytes n = \<lparr>Value = n, MilliValue = 1000 * n\<rparr>"

definition example_container :: "string \<Rightarrow> RecommendedContainerResources" where
  "example_container name =
     \<lparr>ContainerName = name,
      Target = \<lparr>Cpu = cpu_milli 200, Memory = memory_bytes 536870912\<rparr>,
      LowerBound = \<lparr>Cpu = cpu_milli 100, Memory = memory_bytes 268435456\<rparr>,
      UpperBound = \<lparr>Cpu = cpu_milli 400, Memory = memory_bytes 1073741824\<rparr>\<rparr>"

text \<open>An object in mode Auto with two container recommendations.\<close>

definition example_vpa :: Vpa where
  "example_vpa =
     \<lparr>ID = \<lparr>Namespace = ''default'', VpaName = ''web''\<rparr>,
      PodSelector = ''app=web'',
      UpdateMode = Some ''Auto'',
      Recommendation = Some \<lparr>ContainerRecommendations =
        [example_container ''nginx'', example_container ''sidecar'']\<rparr>,
      HasRecommendation = True\<rparr>"

text \<open>An object with no mode set and no recommendation: the reference is nil.\<close>

definition unset_vpa :: Vpa where
  "unset_vpa =
     \<lparr>ID = \<lparr>Namespace = ''default'', VpaName = ''db''\<rparr>,
      PodSelector = ''app=db'',
      UpdateMode = None,
      Recommendation = None,
      HasRecommendation = False\<rparr>"

text \<open>
  An object whose mode string is none of the four recognised ones, with a recommendation
  that lists no container.
\<close>

definition strange_vpa :: Vpa where
  "strange_vpa =
     \<lparr>ID = \<lparr>Namespace = ''default'', VpaName = ''job''\<rparr>,
      PodSelector = ''app=job'',
      UpdateMode = Some ''Manual'',
      Recommendation = Some \<lparr>ContainerRecommendations = []\<rparr>,
      HasRecommendation = False\<rparr>"

text \<open>
  The library orders quantities by their exact amounts. For the comparison of two
  quantities, an exact amount is paired with what the two accessors return for the
  quantity that holds it. The accessors are the library's: they round the amount, or a
  thousand times the amount, up to an integer when that integer fits in an \<^verbatim>\<open>int64\<close>, and
  do as follows in the four examples.
  \<^item> The quantity 1: plain value 1, 1000 milli-units.
  \<^item> The quantity 10E, ten exa, is \<open>10\<^sup>1\<^sup>9\<close>, above the largest \<^verbatim>\<open>int64\<close>. The library
    holds it as the integer 10 at the decimal scale 18; scaling it to a plain value or
    to milli-units overflows, and both accessors return 0.
  \<^item> The quantity 20000000: plain value 20000000, \<open>2 * 10\<^sup>1\<^sup>0\<close> milli-units.
  \<^item> The quantity 1Ei, one exbi, is \<open>2\<^sup>6\<^sup>0\<close>: that is its plain value; a thousand times
    it does not fit, and \<^verbatim>\<open>MilliValue()\<close> returns the wrapped product, \<open>- 2\<^sup>6\<^sup>3\<close>.
\<close>

record ExactQuantity =
  Exact :: rat
  Read :: Quantity

definition quantity_1 :: ExactQuantity where
  "quantity_1 = \<lparr>Exact = 1, Read = \<lparr>Value = 1, MilliValue = 1000\<rparr>\<rparr>"

definition quantity_10E :: ExactQuantity where
  "quantity_10E = \<lparr>Exact = 10 ^ 19, Read = \<lparr>Value = 0, MilliValue = 0\<rparr>\<rparr>"

definition quantity_20000000 :: ExactQuantity where
  "quantity_20000000 =
     \<lparr>Exact = 20000000, Read = \<lparr>Value = 20000000, MilliValue = 20000000000\<rparr>\<rparr>"

definition quantity_1Ei :: ExactQuantity where
  "quantity_1Ei =
     \<lparr>Exact = 2 ^ 60, Read = \<lparr>Value = 1152921504606846976, MilliValue = - 9223372036854775808\<rparr>\<rparr>"

section \<open>Properties\<close>

subsection \<open>The sink and the flush\<close>

lemma gauge_value_append:
  "gauge_value (g @ ws) lvs =
     (case map_of (rev ws) lvs of Some v \<Rightarrow> Some v | None \<Rightarrow> gauge_value g lvs)"
  by (auto simp: gauge_value_def map_add_def split: option.splits)

lemma observe_entries_writes:
  "observe_entries kvs g =
     g @ map (\<lambda>(k, v). ([mode k, Sprintf_v (has k)], float64_of_int64 v)) kvs"
  by (induction kvs arbitrary: g) (auto simp: WithLabelValues_Set_def)

lemma Sprintf_v_inject [simp]: "Sprintf_v a = Sprintf_v b \<longleftrightarrow> a = b"
  by (simp add: Sprintf_v_def)

lemma labels_inject:
  "[mode k, Sprintf_v (has k)] = [mode k', Sprintf_v (has k')] \<longleftrightarrow> k = (k' :: objectCounterKey)"
  by (cases k; cases k') auto

lemma map_of_rev_writes:
  fixes kvs :: "(objectCounterKey \<times> go_int) list"
  shows "distinct (map fst kvs) \<Longrightarrow>
   map_of (rev (map (\<lambda>(k, v). ([mode k, Sprintf_v (has k)], float64_of_int64 v)) kvs))
     [mode k, Sprintf_v (has k)] = map_option float64_of_int64 (map_of kvs k)"
proof (induction kvs)
  case Nil
  then show ?case by simp
next
  case (Cons kv kvs)
  obtain k0 v0 where kv: "kv = (k0, v0)" by (cases kv)
  from Cons.prems have k0: "map_of kvs k0 = None"
    by (auto simp: kv map_of_eq_None_iff)
  show ?case
  proof (cases "k = k0")
    case True
    with Cons k0 show ?thesis
      by (auto simp: kv map_add_def split: option.splits)
  next
    case False
    then have "[mode k, Sprintf_v (has k)] \<noteq> [mode k0, Sprintf_v (has k0)]"
      using labels_inject [of k k0] by blast
    with False Cons show ?thesis
      by (auto simp: kv map_add_def split: option.splits)
  qed
qed

lemma gauge_value_observe_entries:
  fixes kvs :: "(objectCounterKey \<times> go_int) list"
  assumes "lists_entries m kvs"
  shows "gauge_value (observe_entries kvs g) [mode k, Sprintf_v (has k)] =
     (case m k of Some v \<Rightarrow> Some (float64_of_int64 v)
      | None \<Rightarrow> gauge_value g [mode k, Sprintf_v (has k)])"
  using assms map_of_rev_writes [of kvs k]
  by (auto simp: lists_entries_def observe_entries_writes gauge_value_append split: option.splits)

lemma lists_entries_mem:
  "lists_entries m kvs \<Longrightarrow> (k, v) \<in> set kvs \<longleftrightarrow> m k = Some v"
  by (auto simp: lists_entries_def)

lemma lists_entries_mset:
  assumes "lists_entries m kvs" and "lists_entries m kvs'"
  shows "mset kvs = mset kvs'"
proof -
  from assms have "distinct kvs" "distinct kvs'"
    by (auto simp: lists_entries_def distinct_map)
  moreover have "set kvs = set kvs'"
    using assms by (auto simp: lists_entries_mem)
  ultimately show ?thesis
    by (simp add: set_eq_iff_mset_eq_distinct)
qed

lemma fst_range_entries:
  "set ks \<subseteq> dom m \<Longrightarrow> map fst (range_entries m ks) = ks"
  by (induction ks) (auto simp: range_entries_def)

lemma map_of_range_entries:
  "map_of (range_entries m ks) k = (if k \<in> set ks then m k else None)"
  by (induction ks) (auto simp: range_entries_def map_add_def split: option.splits)

lemma range_order_lists_entries:
  assumes "range_order m ks"
  shows "lists_entries m (range_entries m ks)"
proof -
  from assms have d: "distinct ks" and s: "set ks = dom m"
    by (simp_all add: range_order_def)
  from s have "map fst (range_entries m ks) = ks"
    by (intro fst_range_entries) simp
  with d have "distinct (map fst (range_entries m ks))"
    by simp
  moreover have "map_of (range_entries m ks) = m"
  proof
    fix k
    show "map_of (range_entries m ks) k = m k"
      using s by (auto simp: map_of_range_entries)
  qed
  ultimately show ?thesis
    by (simp add: lists_entries_def)
qed

lemma range_entries_mem:
  "range_order m ks \<Longrightarrow> (k, v) \<in> set (range_entries m ks) \<longleftrightarrow> m k = Some v"
  by (rule lists_entries_mem) (rule range_order_lists_entries)

lemma range_entries_mset:
  assumes "range_order m ks" and "range_order m ks'"
  shows "mset (range_entries m ks) = mset (range_entries m ks')"
  using assms by (intro lists_entries_mset [of m] range_order_lists_entries)

lemma range_order_rev: "range_order m ks \<Longrightarrow> range_order m (rev ks)"
  by (simp add: range_order_def)

lemma Observe_writes:
  "Observe ks oc g = (oc, g @ map (\<lambda>(k, v). ([mode k, Sprintf_v (has k)], float64_of_int64 v))
      (range_entries (cnt oc) ks))"
  by (simp add: Observe_def observe_entries_writes)

lemma gauge_value_Observe:
  assumes "range_order (cnt oc) ks"
  shows "gauge_value (snd (Observe ks oc g)) [mode k, Sprintf_v (has k)] =
     (case cnt oc k of Some v \<Rightarrow> Some (float64_of_int64 v)
      | None \<Rightarrow> gauge_value g [mode k, Sprintf_v (has k)])"
  using gauge_value_observe_entries [OF range_order_lists_entries [OF assms], of g k]
  by (simp add: Observe_def)

subsection \<open>The counter\<close>

lemma cnt_seed_modes:
  "cnt (seed_modes ms obj) k = (if mode k \<in> set ms then Some 0 else cnt obj k)"
  by (induction ms arbitrary: obj) (cases k; auto simp: Let_def)+

lemma cnt_NewObjectCounter:
  "cnt NewObjectCounter k = (if mode k \<in> set modes then Some 0 else None)"
  by (simp add: NewObjectCounter_def cnt_seed_modes)

lemma set_modes: "set modes = {''Off'', ''Initial'', ''Recreate'', ''Auto''}"
  by (auto simp: modes_def UpdateModeOff_def UpdateModeInitial_def UpdateModeRecreate_def
      UpdateModeAuto_def)

lemma dom_NewObjectCounter: "dom (cnt NewObjectCounter) = {k. mode k \<in> set modes}"
  by (auto simp: cnt_NewObjectCounter split: if_splits)

lemma set_seeded_keys: "set seeded_keys = {k. mode k \<in> set modes}"
proof
  show "set seeded_keys \<subseteq> {k. mode k \<in> set modes}"
    by (auto simp: seeded_keys_def set_modes)
  show "{k. mode k \<in> set modes} \<subseteq> set seeded_keys"
  proof
    fix k :: objectCounterKey
    assume "k \<in> {k. mode k \<in> set modes}"
    then show "k \<in> set seeded_keys"
      by (cases k) (auto simp: seeded_keys_def set_modes)
  qed
qed

lemma distinct_seeded_keys: "distinct seeded_keys"
  by (simp add: seeded_keys_def)

lemma range_order_fresh: "range_order (cnt NewObjectCounter) seeded_keys"
  by (simp add: range_order_def distinct_seeded_keys set_seeded_keys dom_NewObjectCounter)

lemma range_order_seeded_keys:
  "range_order ((cnt NewObjectCounter)(\<lparr>mode = ''Auto'', has = True\<rparr> \<mapsto> c)) seeded_keys"
proof -
  have "\<lparr>mode = ''Auto'', has = True\<rparr> \<in> {k. mode k \<in> set modes}"
    by (simp add: set_modes)
  then show ?thesis
    by (auto simp: range_order_def distinct_seeded_keys set_seeded_keys dom_NewObjectCounter)
qed

lemma Add_cnt:
  "cnt (Add oc vpa) = (cnt oc)(bucket_key vpa \<mapsto> index_or_zero (cnt oc) (bucket_key vpa) + 1)"
  by (simp add: Add_def bucket_key_def Let_def)

lemma AddAll_cnt:
  "cnt (AddAll oc vpas) k =
     (if k \<in> bucket_key ` set vpas
      then Some (index_or_zero (cnt oc) k + of_nat (count_list (map bucket_key vpas) k))
      else cnt oc k)"
proof (induction vpas arbitrary: oc)
  case Nil
  then show ?case by simp
next
  case (Cons vpa vpas)
  show ?case
    by (simp add: Cons.IH Add_cnt index_or_zero_def)
qed

lemma index_or_zero_fresh [simp]: "index_or_zero (cnt NewObjectCounter) k = 0"
  by (simp add: index_or_zero_def cnt_NewObjectCounter)

lemma AddAll_fresh_index:
  "index_or_zero (cnt (AddAll NewObjectCounter vpas)) k = of_nat (count_list (map bucket_key vpas) k)"
proof (cases "k \<in> bucket_key ` set vpas")
  case True
  then show ?thesis by (auto simp: index_or_zero_def AddAll_cnt cnt_NewObjectCounter)
next
  case False
  then have "count_list (map bucket_key vpas) k = 0"
    by (simp add: count_list_0_iff)
  with False show ?thesis
    by (simp add: index_or_zero_def AddAll_cnt cnt_NewObjectCounter)
qed

lemma dom_AddAll_fresh:
  "dom (cnt (AddAll NewObjectCounter vpas)) = {k. mode k \<in> set modes} \<union> bucket_key ` set vpas"
  by (auto simp: AddAll_cnt cnt_NewObjectCounter split: if_splits)

lemma finite_seeded: "finite {k :: objectCounterKey. mode k \<in> set modes}"
proof -
  have "{k :: objectCounterKey. mode k \<in> set modes}
      \<subseteq> (\<lambda>(m, h). \<lparr>mode = m, has = h\<rparr>) ` (set modes \<times> UNIV)"
  proof
    fix k :: objectCounterKey
    assume "k \<in> {k. mode k \<in> set modes}"
    then have "(mode k, has k) \<in> set modes \<times> UNIV" by simp
    moreover have "k = (\<lambda>(m, h). \<lparr>mode = m, has = h\<rparr>) (mode k, has k)" by simp
    ultimately show "k \<in> (\<lambda>(m, h). \<lparr>mode = m, has = h\<rparr>) ` (set modes \<times> UNIV)"
      by (rule rev_image_eqI)
  qed
  then show ?thesis
    by (rule finite_subset) simp
qed

lemma count_list_all_same:
  "\<forall>x \<in> set xs. f x = y \<Longrightarrow> count_list (map f xs) y = length xs"
  by (induction xs) auto

lemma count_list_replicate: "count_list (replicate n x) x = n"
  by (induction n) auto

lemma gauge_value_flush_AddAll:
  assumes "range_order (cnt (AddAll NewObjectCounter vpas)) ks"
    and "k \<in> dom (cnt (AddAll NewObjectCounter vpas))"
  shows "gauge_value (snd (Observe ks (AddAll NewObjectCounter vpas) g)) [mode k, Sprintf_v (has k)]
    = Some (float64_of_int64 (of_nat (count_list (map bucket_key vpas) k)))"
proof -
  from assms(2) obtain c where c: "cnt (AddAll NewObjectCounter vpas) k = Some c"
    by blast
  then have "index_or_zero (cnt (AddAll NewObjectCounter vpas)) k = c"
    by (simp add: index_or_zero_def)
  then have "c = of_nat (count_list (map bucket_key vpas) k)"
    by (simp add: AddAll_fresh_index)
  with c gauge_value_Observe [OF assms(1), of g k] show ?thesis
    by simp
qed

lemma cnt_AddAll_replicate_example:
  assumes "0 < n"
  shows "cnt (AddAll NewObjectCounter (replicate n example_vpa))
    = (cnt NewObjectCounter)(\<lparr>mode = ''Auto'', has = True\<rparr> \<mapsto> of_nat n)"
proof
  fix k
  have "bucket_key example_vpa = \<lparr>mode = ''Auto'', has = True\<rparr>"
    by (simp add: bucket_key_def example_vpa_def)
  with assms show "cnt (AddAll NewObjectCounter (replicate n example_vpa)) k
      = ((cnt NewObjectCounter)(\<lparr>mode = ''Auto'', has = True\<rparr> \<mapsto> of_nat n)) k"
    by (auto simp: AddAll_cnt count_list_replicate)
qed

lemma range_order_replicate_example:
  assumes "0 < n"
  shows "range_order (cnt (AddAll NewObjectCounter (replicate n example_vpa))) seeded_keys"
  unfolding cnt_AddAll_replicate_example [OF assms] by (rule range_order_seeded_keys)

lemma gauge_value_replicate_example:
  assumes "0 < n"
  shows "gauge_value (snd (Observe seeded_keys
            (AddAll NewObjectCounter (replicate n example_vpa)) [])) [''Auto'', ''true'']
        = Some (float64_of_int64 (of_nat n))"
proof -
  let ?k = "\<lparr>mode = ''Auto'', has = True\<rparr>"
  from gauge_value_Observe [OF range_order_replicate_example [OF assms], of "[]" ?k]
  show ?thesis
    unfolding cnt_AddAll_replicate_example [OF assms] by (simp add: Sprintf_v_def)
qed

subsection \<open>Rounding\<close>

lemma float64_round_of_int: "float64_round (of_int i) = of_int (round_int53 i)"
  by (simp add: float64_round_def)

lemma round_sig53_small:
  assumes "0 \<le> n" and "n \<le> 2 ^ 53"
  shows "round_sig53 n = n"
proof (cases "n = 2 ^ 53")
  case True
  have "round_sig53 9007199254740992 = 9007199254740992" by code_simp
  with True show ?thesis by simp
next
  case False
  with assms have "n < 2 ^ 53" by simp
  then have "bitlen n \<le> 53"
    using assms(1) by (simp add: bitlen_le_iff_power)
  then show ?thesis by (simp add: round_sig53_def round_half_even_div_def)
qed

lemma float64_of_int64_0 [simp]: "float64_of_int64 0 = 0"
  by (simp add: float64_of_int64_def float64_round_def round_int53_def)

lemma sint_of_nat_small:
  assumes "n < 2 ^ 63"
  shows "sint (of_nat n :: 64 word) = int n"
proof -
  have "int n < 2 ^ 63"
    using assms by (simp only: of_nat_less_numeral_power_cancel_iff)
  then have "signed_take_bit 63 (int n) = int n"
    by (intro signed_take_bit_int_eq_self) simp_all
  then show ?thesis
    by (simp add: signed_of_nat)
qed

lemma float64_of_int64_of_nat:
  assumes "n \<le> 2 ^ 53"
  shows "float64_of_int64 (of_nat n) = of_nat n"
proof -
  have i: "int n \<le> 2 ^ 53"
    using assms by (simp only: of_nat_le_numeral_power_cancel_iff)
  then have "int n < 2 ^ 63" by simp
  then have "n < 2 ^ 63" by (simp only: of_nat_less_numeral_power_cancel_iff)
  then have s: "sint (of_nat n :: 64 word) = int n"
    by (rule sint_of_nat_small)
  have r: "round_sig53 (int n) = int n"
    using i by (intro round_sig53_small) simp_all
  have "float64_of_int64 (of_nat n) = float64_round (of_int (int n))"
    unfolding float64_of_int64_def s ..
  also have "\<dots> = of_int (round_int53 (int n))"
    by (rule float64_round_of_int)
  also have "\<dots> = of_int (int n)"
    using r by (simp add: round_int53_def sgn_if)
  finally show ?thesis by simp
qed

lemma float64_of_int64_1 [simp]: "float64_of_int64 1 = 1"
  using float64_of_int64_of_nat [of 1] by simp

subsection \<open>Two flushes\<close>

lemma distinct_flushed_labels:
  fixes kvs :: "(objectCounterKey \<times> go_int) list"
  assumes "distinct (map fst kvs)"
  shows "distinct (map fst (map (\<lambda>(k, v). ([mode k, Sprintf_v (has k)], float64_of_int64 v)) kvs))"
proof -
  let ?L = "\<lambda>k :: objectCounterKey. [mode k, Sprintf_v (has k)]"
  have m: "map fst (map (\<lambda>(k, v). ([mode k, Sprintf_v (has k)], float64_of_int64 v)) kvs)
      = map ?L (map fst kvs)"
    by (induction kvs) auto
  have "inj ?L"
    by (rule injI) (simp only: labels_inject)
  then have "inj_on ?L (set (map fst kvs))"
    by (rule inj_on_subset) simp
  with assms have "distinct (map ?L (map fst kvs))"
    by (simp only: distinct_map simp_thms)
  then show ?thesis
    by (simp only: m)
qed

lemma map_of_rev_flushed:
  fixes kvs1 kvs2 :: "(objectCounterKey \<times> go_int) list"
  assumes "lists_entries m kvs1" and "lists_entries m kvs2"
  shows "map_of (rev (map (\<lambda>(k, v). ([mode k, Sprintf_v (has k)], float64_of_int64 v)) kvs1))
    = map_of (rev (map (\<lambda>(k, v). ([mode k, Sprintf_v (has k)], float64_of_int64 v)) kvs2))"
proof -
  let ?w = "map (\<lambda>(k, v). ([mode k, Sprintf_v (has k)], float64_of_int64 v))"
  from assms have "set kvs1 = set kvs2"
    by (auto simp: lists_entries_mem)
  then have "set (rev (?w kvs1)) = set (rev (?w kvs2))"
    by simp
  moreover have "distinct (rev (map fst (?w kvs1)))" "distinct (rev (map fst (?w kvs2)))"
    using assms distinct_flushed_labels [of kvs1] distinct_flushed_labels [of kvs2]
    by (simp_all only: lists_entries_def distinct_rev)
  then have "distinct (map fst (rev (?w kvs1)))" "distinct (map fst (rev (?w kvs2)))"
    by (simp_all only: rev_map)
  ultimately show ?thesis
    by (simp only: map_of_inject_set)
qed

subsection \<open>Sums of counts\<close>

lemma sint_count_fresh:
  assumes "int (length vpas) < 2 ^ 63"
  shows "sint (index_or_zero (cnt (AddAll NewObjectCounter vpas)) k)
    = int (count_list (map bucket_key vpas) k)"
proof -
  have "count_list (map bucket_key vpas) k \<le> length vpas"
    using count_le_length [of "map bucket_key vpas" k] by simp
  with assms have "int (count_list (map bucket_key vpas) k) < 2 ^ 63"
    by linarith
  then have "count_list (map bucket_key vpas) k < 2 ^ 63"
    by (simp only: of_nat_less_numeral_power_cancel_iff)
  then show ?thesis
    by (simp only: AddAll_fresh_index sint_of_nat_small)
qed

lemma sum_counts_fresh:
  assumes "int (length vpas) < 2 ^ 63"
  shows "(\<Sum>k \<in> dom (cnt (AddAll NewObjectCounter vpas)).
      sint (index_or_zero (cnt (AddAll NewObjectCounter vpas)) k)) = int (length vpas)"
proof -
  let ?D = "dom (cnt (AddAll NewObjectCounter vpas))"
  let ?keys = "map bucket_key vpas"
  have f: "finite ?D"
    by (simp add: dom_AddAll_fresh finite_seeded)
  have s: "set ?keys \<subseteq> ?D"
    by (auto simp: dom_AddAll_fresh)
  have "(\<Sum>k \<in> ?D. sint (index_or_zero (cnt (AddAll NewObjectCounter vpas)) k))
      = (\<Sum>k \<in> ?D. int (count_list ?keys k))"
    by (simp only: sint_count_fresh [OF assms])
  also have "\<dots> = int (sum (count_list ?keys) ?D)"
    by simp
  also have "\<dots> = int (length ?keys)"
    by (simp only: sum_count_set [OF s f])
  finally show ?thesis by simp
qed

lemma cnt_AddAll_mset:
  assumes "mset (map bucket_key vpas') = mset (map bucket_key vpas)"
  shows "cnt (AddAll oc vpas') = cnt (AddAll oc vpas)"
proof
  fix k
  from assms have "set (map bucket_key vpas') = set (map bucket_key vpas)"
    by (rule mset_eq_setD)
  then have s: "bucket_key ` set vpas' = bucket_key ` set vpas"
    by simp
  from assms have "count (mset (map bucket_key vpas')) k = count (mset (map bucket_key vpas)) k"
    by simp
  then have c: "count_list (map bucket_key vpas') k = count_list (map bucket_key vpas) k"
    by (simp only: count_mset)
  show "cnt (AddAll oc vpas') k = cnt (AddAll oc vpas) k"
    by (simp only: AddAll_cnt s c)
qed

lemma flushed_mset:
  assumes "range_order (cnt oc) ks" and "range_order (cnt oc') ks'" and "cnt oc' = cnt oc"
  shows "mset (drop (length g) (snd (Observe ks' oc' g)))
    = mset (drop (length g) (snd (Observe ks oc g)))"
proof -
  from assms(2,3) have "range_order (cnt oc) ks'"
    by simp
  then have "mset (range_entries (cnt oc) ks') = mset (range_entries (cnt oc) ks)"
    using assms(1) by (rule range_entries_mset)
  then show ?thesis
    by (simp add: Observe_writes assms(3))
qed

subsection \<open>The writes of \<^verbatim>\<open>ObserveVPARecommendation\<close>\<close>

lemma observe_container_writes:
  "observe_container vpa r g = g @
     map (\<lambda>(band, res, q).
           ([VpaName (ID vpa), Namespace (ID vpa), PodSelector vpa, ContainerName r, band, res],
            toFloat64 q))
       [(''lower_bound'', ''cpu'', Cpu (LowerBound r)),
        (''lower_bound'', ''memory'', Memory (LowerBound r)),
        (''target'', ''cpu'', Cpu (Target r)),
        (''target'', ''memory'', Memory (Target r)),
        (''upper_bound'', ''cpu'', Cpu (UpperBound r)),
        (''upper_bound'', ''memory'', Memory (UpperBound r))]"
  by (simp add: observe_container_def WithLabelValues_Set_def Let_def)

lemma observe_containers_writes:
  "observe_containers vpa rs g = g @ concat (map (\<lambda>r.
     map (\<lambda>(band, res, q).
           ([VpaName (ID vpa), Namespace (ID vpa), PodSelector vpa, ContainerName r, band, res],
            toFloat64 q))
       [(''lower_bound'', ''cpu'', Cpu (LowerBound r)),
        (''lower_bound'', ''memory'', Memory (LowerBound r)),
        (''target'', ''cpu'', Cpu (Target r)),
        (''target'', ''memory'', Memory (Target r)),
        (''upper_bound'', ''cpu'', Cpu (UpperBound r)),
        (''upper_bound'', ''memory'', Memory (UpperBound r))]) rs)"
proof (induction rs arbitrary: g)
  case Nil
  show ?case by simp
next
  case (Cons r rs)
  show ?case
    by (simp only: observe_containers.simps Cons.IH observe_container_writes list.map concat.simps
        append_assoc)
qed

lemma length_observe_containers:
  "length (observe_containers vpa rs g) = length g + 6 * length rs"
  by (induction rs arbitrary: g) (simp_all add: observe_container_writes)

subsection \<open>Rounding preserves the order\<close>

lemma round_half_even_div_exact:
  "0 < d \<Longrightarrow> round_half_even_div (m * d) d = m"
  by (simp add: round_half_even_div_def)

lemma round_half_even_div_bounds:
  "n div d \<le> round_half_even_div n d \<and> round_half_even_div n d \<le> n div d + 1"
  by (simp add: round_half_even_div_def Let_def)

lemma round_half_even_div_mono:
  assumes "0 < d" and "a \<le> b"
  shows "round_half_even_div a d \<le> round_half_even_div b d"
proof (cases "a div d = b div d")
  case True
  have "a = a div d * d + a mod d" "b = b div d * d + b mod d"
    by simp_all
  with True assms(2) have "a mod d \<le> b mod d"
    by (metis add_le_cancel_left)
  with True show ?thesis
    by (auto simp: round_half_even_div_def Let_def)
next
  case False
  moreover have "a div d \<le> b div d"
    using assms by (simp add: zdiv_mono1)
  ultimately have "a div d + 1 \<le> b div d"
    by simp
  with round_half_even_div_bounds [of a d] round_half_even_div_bounds [of b d]
  show ?thesis by linarith
qed

lemma round_sig53_nonneg: "0 \<le> n \<Longrightarrow> 0 \<le> round_sig53 n"
proof -
  assume "0 \<le> n"
  then have "0 \<le> n div 2 ^ nat (bitlen n - 53)"
    by (simp add: pos_imp_zdiv_nonneg_iff)
  with round_half_even_div_bounds [of n "2 ^ nat (bitlen n - 53)"]
  have "0 \<le> round_half_even_div n (2 ^ nat (bitlen n - 53))"
    by linarith
  then show ?thesis
    by (simp add: round_sig53_def Let_def)
qed

lemma bitlen_mono: "a \<le> b \<Longrightarrow> bitlen a \<le> bitlen b"
  by (simp add: bitlen_def floorlog_mono nat_mono)

text \<open>Rounding to a multiple of \<open>2 ^ s\<close> does not cross a multiple of \<open>2 ^ s\<close>.\<close>

lemma round_to_le_power:
  assumes "n \<le> 2 ^ t" and "s \<le> t"
  shows "round_half_even_div n (2 ^ s) * 2 ^ s \<le> (2 ^ t :: int)"
proof -
  have p: "(2 ^ t :: int) = 2 ^ (t - s) * 2 ^ s"
    using assms(2) by (simp flip: power_add)
  have "round_half_even_div n (2 ^ s) \<le> round_half_even_div (2 ^ (t - s) * 2 ^ s) (2 ^ s)"
    using assms(1) unfolding p by (intro round_half_even_div_mono) simp_all
  also have "\<dots> = 2 ^ (t - s)"
    by (rule round_half_even_div_exact) simp
  finally have "round_half_even_div n (2 ^ s) * 2 ^ s \<le> 2 ^ (t - s) * (2 ^ s :: int)"
    by (rule mult_right_mono) simp
  then show ?thesis
    by (simp only: p)
qed

lemma round_to_ge_power:
  assumes "2 ^ t \<le> n" and "s \<le> t"
  shows "(2 ^ t :: int) \<le> round_half_even_div n (2 ^ s) * 2 ^ s"
proof -
  have p: "(2 ^ t :: int) = 2 ^ (t - s) * 2 ^ s"
    using assms(2) by (simp flip: power_add)
  have "round_half_even_div (2 ^ (t - s) * 2 ^ s) (2 ^ s) \<le> round_half_even_div n (2 ^ s)"
    using assms(1) unfolding p by (intro round_half_even_div_mono) simp_all
  moreover have "round_half_even_div (2 ^ (t - s) * 2 ^ s) (2 ^ s) = (2 ^ (t - s) :: int)"
    by (rule round_half_even_div_exact) simp
  ultimately have "(2 ^ (t - s) :: int) \<le> round_half_even_div n (2 ^ s)"
    by simp
  then have "2 ^ (t - s) * (2 ^ s :: int) \<le> round_half_even_div n (2 ^ s) * 2 ^ s"
    by (rule mult_right_mono) simp
  then show ?thesis
    by (simp only: p)
qed

lemma round_sig53_mono:
  assumes "0 \<le> a" and "a \<le> b"
  shows "round_sig53 a \<le> round_sig53 b"
proof (cases "a = 0")
  case True
  have "round_sig53 0 = 0"
    by (simp add: round_sig53_def round_half_even_div_def)
  with True assms round_sig53_nonneg [of b] show ?thesis
    by simp
next
  case False
  with assms have a: "0 < a" and b: "0 < b"
    by simp_all
  let ?sa = "nat (bitlen a - 53)" and ?sb = "nat (bitlen b - 53)"
  have le: "bitlen a \<le> bitlen b"
    using assms(2) by (rule bitlen_mono)
  show ?thesis
  proof (cases "?sa = ?sb")
    case True
    have "round_half_even_div a (2 ^ ?sb) \<le> round_half_even_div b (2 ^ ?sb)"
      using assms(2) by (intro round_half_even_div_mono) simp_all
    then have "round_half_even_div a (2 ^ ?sb) * 2 ^ ?sb \<le> round_half_even_div b (2 ^ ?sb) * 2 ^ ?sb"
      by (rule mult_right_mono) simp
    with True show ?thesis
      by (simp add: round_sig53_def Let_def)
  next
    case False
    with le have lt: "bitlen a < bitlen b" and big: "53 < bitlen b"
      by auto
    have pa: "0 \<le> bitlen a"
      by (rule bitlen_nonneg)
    have "a < 2 ^ nat (bitlen a)"
      using bitlen_bounds [OF a] by simp
    then have 1: "round_half_even_div a (2 ^ ?sa) * 2 ^ ?sa \<le> 2 ^ nat (bitlen a)"
      by (intro round_to_le_power) simp_all
    have "2 ^ nat (bitlen b - 1) \<le> b"
      using bitlen_bounds [OF b] by simp
    then have 2: "2 ^ nat (bitlen b - 1) \<le> round_half_even_div b (2 ^ ?sb) * 2 ^ ?sb"
      by (intro round_to_ge_power) simp_all
    have 3: "(2 ^ nat (bitlen a) :: int) \<le> 2 ^ nat (bitlen b - 1)"
      using lt pa by (intro power_increasing) simp_all
    from 1 2 3 have "round_half_even_div a (2 ^ ?sa) * 2 ^ ?sa
        \<le> round_half_even_div b (2 ^ ?sb) * 2 ^ ?sb"
      by linarith
    then show ?thesis
      by (simp add: round_sig53_def Let_def)
  qed
qed

lemma round_int53_mono:
  assumes "i \<le> j"
  shows "round_int53 i \<le> round_int53 j"
proof -
  consider "0 \<le> i" | "j \<le> 0" | "i < 0" "0 < j"
    by linarith
  then show ?thesis
  proof cases
    case 1
    with assms round_sig53_mono [of i j] show ?thesis
      by (auto simp: round_int53_def sgn_if round_sig53_def round_half_even_div_def)
  next
    case 2
    with assms have "round_sig53 \<bar>j\<bar> \<le> round_sig53 \<bar>i\<bar>"
      by (intro round_sig53_mono) simp_all
    with 2 assms show ?thesis
      by (auto simp: round_int53_def sgn_if round_sig53_def round_half_even_div_def)
  next
    case 3
    with round_sig53_nonneg [of "\<bar>i\<bar>"] round_sig53_nonneg [of "\<bar>j\<bar>"] show ?thesis
      by (simp add: round_int53_def sgn_if)
  qed
qed


lemma round_sig53_scale:
  assumes "0 < n"
  shows "round_sig53 (n * 2 ^ i) = round_sig53 n * 2 ^ i"
proof (cases "53 \<le> bitlen n")
  case True
  let ?s = "nat (bitlen n - 53)"
  from True have s: "nat (bitlen (n * 2 ^ i) - 53) = ?s + i"
    using assms by (simp add: nat_add_distrib)
  have q: "(n * 2 ^ i) div (2 ^ ?s * 2 ^ i) = n div 2 ^ ?s"
    by simp
  have r: "(n * 2 ^ i) mod (2 ^ ?s * 2 ^ i) = (n mod 2 ^ ?s) * 2 ^ i"
    by simp
  have c1: "2 * ((n mod 2 ^ ?s) * 2 ^ i) < 2 ^ ?s * 2 ^ i \<longleftrightarrow> 2 * (n mod 2 ^ ?s) < 2 ^ ?s"
    using mult_less_cancel_right_pos [of "2 ^ i" "2 * (n mod 2 ^ ?s)" "2 ^ ?s"]
    by (simp add: mult.assoc)
  have c2: "2 ^ ?s * 2 ^ i < 2 * ((n mod 2 ^ ?s) * 2 ^ i) \<longleftrightarrow> 2 ^ ?s < 2 * (n mod 2 ^ ?s)"
    using mult_less_cancel_right_pos [of "2 ^ i" "2 ^ ?s" "2 * (n mod 2 ^ ?s)"]
    by (simp add: mult.assoc)
  have "round_half_even_div (n * 2 ^ i) (2 ^ ?s * 2 ^ i) = round_half_even_div n (2 ^ ?s)"
    unfolding round_half_even_div_def Let_def q r c1 c2 ..
  then show ?thesis
    by (simp add: round_sig53_def Let_def s power_add)
next
  case False
  then have n: "round_sig53 n = n"
    by (simp add: round_sig53_def round_half_even_div_def)
  let ?s = "nat (bitlen (n * 2 ^ i) - 53)"
  from False have "?s \<le> i"
    using assms by simp
  then have "(2::int) ^ i = 2 ^ (i - ?s) * 2 ^ ?s"
    by (simp flip: power_add)
  then have e: "n * 2 ^ i = (n * 2 ^ (i - ?s)) * 2 ^ ?s"
    by (simp only: mult.assoc)
  have "round_half_even_div ((n * 2 ^ (i - ?s)) * 2 ^ ?s) (2 ^ ?s) = n * 2 ^ (i - ?s)"
    by (rule round_half_even_div_exact) simp
  then have "round_half_even_div (n * 2 ^ i) (2 ^ ?s) = n * 2 ^ (i - ?s)"
    using e by (simp only:)
  then have "round_half_even_div (n * 2 ^ i) (2 ^ ?s) * 2 ^ ?s = n * 2 ^ (i - ?s) * 2 ^ ?s"
    by (simp only:)
  also have "\<dots> = n * 2 ^ i"
    using e by (simp only:)
  finally have "round_sig53 (n * 2 ^ i) = n * 2 ^ i"
    by (simp only: round_sig53_def Let_def)
  then show ?thesis
    by (simp only: n)
qed

lemma round_int53_scale: "round_int53 (n * 2 ^ i) = round_int53 n * 2 ^ i"
proof (cases "n = 0")
  case True
  then show ?thesis
    by (simp add: round_int53_def)
next
  case False
  then have "0 < \<bar>n\<bar>"
    by simp
  then have "round_sig53 (\<bar>n\<bar> * 2 ^ i) = round_sig53 \<bar>n\<bar> * 2 ^ i"
    by (rule round_sig53_scale)
  then show ?thesis
    by (simp add: round_int53_def abs_mult sgn_mult)
qed

lemma pos_dvd_two_power:
  fixes q :: int
  assumes "0 < q" and "q dvd 2 ^ t"
  shows "\<exists>j\<le>t. q = 2 ^ j"
  using assms
proof (induction t arbitrary: q)
  case 0
  then have "q = 1" by simp
  then show ?case by simp
next
  case (Suc t)
  show ?case
  proof (cases "even q")
    case True
    then obtain q' where q': "q = 2 * q'" ..
    with Suc.prems have "0 < q'" and "q' dvd 2 ^ t"
      by simp_all
    then obtain j where "j \<le> t" and "q' = 2 ^ j"
      using Suc.IH by blast
    with q' have "Suc j \<le> Suc t" and "q = 2 ^ Suc j"
      by simp_all
    then show ?thesis by blast
  next
    case False
    then have "coprime q 2"
      by simp
    with Suc.prems(2) have "q dvd 2 ^ t"
      by (simp add: coprime_dvd_mult_right_iff)
    with Suc.prems(1) obtain j where "j \<le> t" and "q = 2 ^ j"
      using Suc.IH by blast
    then have "j \<le> Suc t" and "q = 2 ^ j"
      by simp_all
    then show ?thesis by blast
  qed
qed

lemma float64_round_dyadic:
  "float64_round (of_int n / 2 ^ t) = of_int (round_int53 n) / 2 ^ t"
proof -
  obtain p q where pq: "quotient_of (of_int n / 2 ^ t) = (p, q)"
    by (cases "quotient_of (rat_of_int n / 2 ^ t)")
  then have q: "0 < q" and c: "coprime p q"
    and e: "rat_of_int n / 2 ^ t = of_int p / of_int q"
    by (simp_all add: quotient_of_denom_pos quotient_of_coprime quotient_of_div)
  from e q have "rat_of_int n * of_int q = of_int p * 2 ^ t"
    by (simp add: field_simps)
  then have "rat_of_int (n * q) = rat_of_int (p * 2 ^ t)"
    by simp
  then have nq: "n * q = p * 2 ^ t"
    by (simp only: of_int_eq_iff)
  then have "q dvd p * 2 ^ t"
    by (metis dvd_triv_right)
  with c have "q dvd 2 ^ t"
    by (simp add: coprime_dvd_mult_right_iff coprime_commute)
  with q obtain j where j: "j \<le> t" and qj: "q = 2 ^ j"
    using pos_dvd_two_power by blast
  from j have t: "(2::int) ^ t = 2 ^ (t - j) * 2 ^ j"
    by (simp flip: power_add)
  from nq have "n * 2 ^ j = (p * 2 ^ (t - j)) * 2 ^ j"
    by (simp add: qj t)
  then have n: "n = p * 2 ^ (t - j)"
    by simp
  from j have t': "(2::rat) ^ t = 2 ^ (t - j) * 2 ^ j"
    by (simp flip: power_add)
  have "float64_round (of_int n / 2 ^ t) = of_int (round_int53 p) / 2 ^ j"
    by (simp add: float64_round_def pq qj)
  also have "\<dots> = of_int (round_int53 p * 2 ^ (t - j)) / 2 ^ t"
    by (simp add: t')
  also have "\<dots> = of_int (round_int53 n) / 2 ^ t"
    by (simp only: n round_int53_scale)
  finally show ?thesis .
qed

lemma float64_of_int64_eq: "float64_of_int64 v = of_int (round_int53 (sint v))"
  by (simp only: float64_of_int64_def float64_round_of_int)

lemma float64_of_int64_mono:
  "sint v \<le> sint w \<Longrightarrow> float64_of_int64 v \<le> float64_of_int64 w"
  by (simp add: float64_of_int64_eq round_int53_mono)

lemma float64_mul_0_001:
  "float64_mul (float64_of_int64 v) float64_0_001
    = of_int (round_int53 (round_int53 (sint v) * 1152921504606847)) / 2 ^ 60"
proof -
  have "float64_of_int64 v * float64_0_001
      = of_int (round_int53 (sint v) * 1152921504606847) / 2 ^ 60"
    by (simp add: float64_of_int64_eq float64_0_001_def)
  then show ?thesis
    by (simp only: float64_mul_def float64_round_dyadic)
qed

lemma float64_mul_0_001_mono:
  assumes "sint v \<le> sint w"
  shows "float64_mul (float64_of_int64 v) float64_0_001
    \<le> float64_mul (float64_of_int64 w) float64_0_001"
proof -
  from assms have "round_int53 (sint v) \<le> round_int53 (sint w)"
    by (rule round_int53_mono)
  then have "round_int53 (sint v) * 1152921504606847 \<le> round_int53 (sint w) * 1152921504606847"
    by simp
  then have "round_int53 (round_int53 (sint v) * 1152921504606847)
      \<le> round_int53 (round_int53 (sint w) * 1152921504606847)"
    by (rule round_int53_mono)
  then show ?thesis
    by (simp add: float64_mul_0_001 divide_right_mono)
qed

section \<open>Claims\<close>

text \<open>
  C1. A freshly constructed counter holds exactly the buckets \<open>(m, h)\<close> for the four known
  modes \<open>m\<close> (Off, Initial, Recreate, Auto) and both booleans \<open>h\<close>, each with count 0; when
  it is flushed with no \<^verbatim>\<open>Add\<close> before, in whatever order \<^verbatim>\<open>range\<close> visits the buckets, the
  value 0 is written under the label tuple \<open>(m, h)\<close> and is the value of that gauge
  afterwards.
\<close>

theorem fresh_counter_flushes_zero:
  assumes "range_order (cnt NewObjectCounter) ks" and "m \<in> set modes"
  shows "set modes = {''Off'', ''Initial'', ''Recreate'', ''Auto''}
    \<and> dom (cnt NewObjectCounter) = {k. mode k \<in> set modes}
    \<and> cnt NewObjectCounter \<lparr>mode = m, has = h\<rparr> = Some 0
    \<and> (\<exists>ws. snd (Observe ks NewObjectCounter g) = g @ ws \<and> ([m, Sprintf_v h], 0) \<in> set ws)
    \<and> gauge_value (snd (Observe ks NewObjectCounter g)) [m, Sprintf_v h] = Some 0"
proof -
  let ?k = "\<lparr>mode = m, has = h\<rparr>"
  have c: "cnt NewObjectCounter ?k = Some 0"
    using assms(2) by (simp add: cnt_NewObjectCounter)
  have d: "dom (cnt NewObjectCounter) = {k. mode k \<in> set modes}"
    by (auto simp: cnt_NewObjectCounter split: if_splits)
  from c assms(1) have "(?k, 0) \<in> set (range_entries (cnt NewObjectCounter) ks)"
    by (simp add: range_entries_mem)
  then have "([m, Sprintf_v h], 0) \<in>
      set (map (\<lambda>(k, v). ([mode k, Sprintf_v (has k)], float64_of_int64 v))
        (range_entries (cnt NewObjectCounter) ks))"
    by force
  then have w: "\<exists>ws. snd (Observe ks NewObjectCounter g) = g @ ws \<and> ([m, Sprintf_v h], 0) \<in> set ws"
    unfolding Observe_writes snd_conv by blast
  have v: "gauge_value (snd (Observe ks NewObjectCounter g)) [m, Sprintf_v h] = Some 0"
    using gauge_value_Observe [OF assms(1), of g ?k] c
    by simp
  from set_modes d c w v show ?thesis by blast
qed

theorem fresh_counter_flushes_zero_witness:
  "range_order (cnt NewObjectCounter) seeded_keys \<and> ''Auto'' \<in> set modes
    \<and> gauge_value (snd (Observe seeded_keys NewObjectCounter [])) [''Auto'', ''true''] = Some 0"
  using fresh_counter_flushes_zero [OF range_order_fresh, of "''Auto''" True "[]"]
  by (simp add: range_order_fresh set_modes Sprintf_v_def)

text \<open>
  C2. \<^verbatim>\<open>toFloat64\<close> compares the plain value with 10,000,000 strictly: above it the result
  is \<^verbatim>\<open>float64(v)\<close>; at or below it, at exactly 10,000,000 too, the result is
  \<^verbatim>\<open>float64(MilliValue) * 0.001\<close>.
\<close>

theorem toFloat64_threshold:
  "(10000000 < sint (Value q) \<longrightarrow> toFloat64 q = float64_of_int64 (Value q))
    \<and> (sint (Value q) \<le> 10000000 \<longrightarrow>
          toFloat64 q = float64_mul (float64_of_int64 (MilliValue q)) float64_0_001)
    \<and> (Value q = 10000000 \<longrightarrow>
          toFloat64 q = float64_mul (float64_of_int64 (MilliValue q)) float64_0_001)
    \<and> (Value q = 10000001 \<longrightarrow> toFloat64 q = float64_of_int64 10000001)"
proof (intro conjI impI)
  show "toFloat64 q = float64_of_int64 (Value q)" if "10000000 < sint (Value q)"
    using that by (simp add: toFloat64_def word_sless_alt Let_def)
  show "toFloat64 q = float64_mul (float64_of_int64 (MilliValue q)) float64_0_001"
    if "sint (Value q) \<le> 10000000"
    using that by (simp add: toFloat64_def word_sless_alt Let_def)
  show "toFloat64 q = float64_mul (float64_of_int64 (MilliValue q)) float64_0_001"
    if "Value q = 10000000"
    using that by (simp add: toFloat64_def word_sless_alt Let_def)
  show "toFloat64 q = float64_of_int64 10000001" if "Value q = 10000001"
    using that by (simp add: toFloat64_def word_sless_alt Let_def)
qed

theorem toFloat64_threshold_witness:
  "sint (Value \<lparr>Value = 10000000, MilliValue = 10000000000\<rparr>) \<le> 10000000
    \<and> toFloat64 \<lparr>Value = 10000000, MilliValue = 10000000000\<rparr>
        = float64_mul (float64_of_int64 10000000000) float64_0_001
    \<and> float64_mul (float64_of_int64 10000000000) float64_0_001 = 10000000
    \<and> 10000000 < sint (Value \<lparr>Value = 10000001, MilliValue = 10000001000\<rparr>)
    \<and> toFloat64 \<lparr>Value = 10000001, MilliValue = 10000001000\<rparr> = float64_of_int64 10000001
    \<and> float64_of_int64 10000001 = 10000001"
proof -
  have 1: "sint (Value \<lparr>Value = 10000000, MilliValue = 10000000000\<rparr>) \<le> 10000000"
    by simp
  have 2: "10000000 < sint (Value \<lparr>Value = 10000001, MilliValue = 10000001000\<rparr>)"
    by simp
  from toFloat64_threshold [of "\<lparr>Value = 10000000, MilliValue = 10000000000\<rparr>", THEN conjunct2,
      THEN conjunct1, THEN mp, OF 1]
  have 3: "toFloat64 \<lparr>Value = 10000000, MilliValue = 10000000000\<rparr>
        = float64_mul (float64_of_int64 10000000000) float64_0_001"
    by simp
  from toFloat64_threshold [of "\<lparr>Value = 10000001, MilliValue = 10000001000\<rparr>", THEN conjunct1,
      THEN mp, OF 2]
  have 4: "toFloat64 \<lparr>Value = 10000001, MilliValue = 10000001000\<rparr> = float64_of_int64 10000001"
    by simp
  have 5: "float64_mul (float64_of_int64 10000000000) float64_0_001 = 10000000"
    by code_simp
  have 6: "float64_of_int64 10000001 = 10000001"
    by code_simp
  from 1 2 3 4 5 6 show ?thesis
    by (intro conjI)
qed

text \<open>
  C3. \<^verbatim>\<open>ObserveVPARecommendation\<close> appends, for each container recommendation in turn, exactly
  six writes to the gauge vector: one for each of the bands lower bound, target and upper
  bound and each of the resources cpu and memory, with the value \<^verbatim>\<open>toFloat64\<close> of that
  quantity, under the labels object name, namespace, pod selector string, container name,
  band name, resource name. An object with two container recommendations gives 12
  writes, one with none gives no write. An object without a recommendation has no
  container recommendation, and no write is made for it.
\<close>

theorem six_writes_per_container:
  "(\<forall>rec. Recommendation vpa = Some rec \<longrightarrow>
      ObserveVPARecommendation vpa g = (None, g @ concat (map (\<lambda>r.
         map (\<lambda>(band, res, q).
               ([VpaName (ID vpa), Namespace (ID vpa), PodSelector vpa, ContainerName r, band, res],
                toFloat64 q))
           [(''lower_bound'', ''cpu'', Cpu (LowerBound r)),
            (''lower_bound'', ''memory'', Memory (LowerBound r)),
            (''target'', ''cpu'', Cpu (Target r)),
            (''target'', ''memory'', Memory (Target r)),
            (''upper_bound'', ''cpu'', Cpu (UpperBound r)),
            (''upper_bound'', ''memory'', Memory (UpperBound r))])
         (ContainerRecommendations rec)))
      \<and> length (snd (ObserveVPARecommendation vpa g))
          = length g + 6 * length (ContainerRecommendations rec)
      \<and> (length (ContainerRecommendations rec) = 2 \<longrightarrow>
            length (snd (ObserveVPARecommendation vpa g)) = length g + 12)
      \<and> (ContainerRecommendations rec = [] \<longrightarrow> snd (ObserveVPARecommendation vpa g) = g))
    \<and> (Recommendation vpa = None \<longrightarrow> snd (ObserveVPARecommendation vpa g) = g)"
proof (intro conjI allI impI)
  fix rec
  assume r: "Recommendation vpa = Some rec"
  then have o: "ObserveVPARecommendation vpa g
      = (None, observe_containers vpa (ContainerRecommendations rec) g)"
    by (simp add: ObserveVPARecommendation_def)
  show "ObserveVPARecommendation vpa g = (None, g @ concat (map (\<lambda>r.
         map (\<lambda>(band, res, q).
               ([VpaName (ID vpa), Namespace (ID vpa), PodSelector vpa, ContainerName r, band, res],
                toFloat64 q))
           [(''lower_bound'', ''cpu'', Cpu (LowerBound r)),
            (''lower_bound'', ''memory'', Memory (LowerBound r)),
            (''target'', ''cpu'', Cpu (Target r)),
            (''target'', ''memory'', Memory (Target r)),
            (''upper_bound'', ''cpu'', Cpu (UpperBound r)),
            (''upper_bound'', ''memory'', Memory (UpperBound r))])
         (ContainerRecommendations rec)))"
    unfolding o by (simp only: observe_containers_writes)
  show "length (snd (ObserveVPARecommendation vpa g))
      = length g + 6 * length (ContainerRecommendations rec)"
    unfolding o snd_conv by (rule length_observe_containers)
  show "length (snd (ObserveVPARecommendation vpa g)) = length g + 12"
    if "length (ContainerRecommendations rec) = 2"
    unfolding o snd_conv length_observe_containers that by simp
  show "snd (ObserveVPARecommendation vpa g) = g" if "ContainerRecommendations rec = []"
    unfolding o snd_conv that by simp
next
  assume "Recommendation vpa = None"
  then show "snd (ObserveVPARecommendation vpa g) = g"
    by (simp add: ObserveVPARecommendation_def)
qed

theorem six_writes_per_container_witness:
  "Recommendation example_vpa
      = Some \<lparr>ContainerRecommendations = [example_container ''nginx'', example_container ''sidecar'']\<rparr>
    \<and> length [example_container ''nginx'', example_container ''sidecar''] = 2
    \<and> fst (ObserveVPARecommendation example_vpa []) = None
    \<and> length (snd (ObserveVPARecommendation example_vpa [])) = 12
    \<and> gauge_value (snd (ObserveVPARecommendation example_vpa []))
        [''web'', ''default'', ''app=web'', ''nginx'', ''lower_bound'', ''cpu'']
      = Some (7205759403792794 / 2 ^ 56)
    \<and> gauge_value (snd (ObserveVPARecommendation example_vpa []))
        [''web'', ''default'', ''app=web'', ''sidecar'', ''upper_bound'', ''memory'']
      = Some 1073741824"
proof -
  let ?rec = "\<lparr>ContainerRecommendations = [example_container ''nginx'', example_container ''sidecar'']\<rparr>"
  have r: "Recommendation example_vpa = Some ?rec"
    by (simp add: example_vpa_def)
  have l: "length (ContainerRecommendations ?rec) = 2"
    by simp
  note t = six_writes_per_container [of example_vpa "[]", THEN conjunct1, THEN spec, THEN mp, OF r]
  from t have "ObserveVPARecommendation example_vpa [] = (None, snd (ObserveVPARecommendation example_vpa []))"
    by simp
  then have f: "fst (ObserveVPARecommendation example_vpa []) = None"
    by (metis fst_conv)
  from t [THEN conjunct2, THEN conjunct2, THEN conjunct1, THEN mp, OF l]
  have w: "length (snd (ObserveVPARecommendation example_vpa [])) = 12"
    by simp
  have c: "toFloat64 (cpu_milli 100) = 7205759403792794 / 2 ^ 56"
    by code_simp
  have m: "toFloat64 (memory_bytes 1073741824) = 1073741824"
    by code_simp
  have a: "gauge_value (snd (ObserveVPARecommendation example_vpa []))
        [''web'', ''default'', ''app=web'', ''nginx'', ''lower_bound'', ''cpu'']
      = Some (toFloat64 (cpu_milli 100))"
    by (simp add: ObserveVPARecommendation_def example_vpa_def example_container_def
        observe_container_writes gauge_value_def)
  have b: "gauge_value (snd (ObserveVPARecommendation example_vpa []))
        [''web'', ''default'', ''app=web'', ''sidecar'', ''upper_bound'', ''memory'']
      = Some (toFloat64 (memory_bytes 1073741824))"
    by (simp add: ObserveVPARecommendation_def example_vpa_def example_container_def
        observe_container_writes gauge_value_def)
  have l': "length [example_container ''nginx'', example_container ''sidecar''] = 2"
    by simp
  from r l' f w a b show ?thesis
    unfolding c m by (intro conjI)
qed

text \<open>
  C4 (amended). Let \<open>k\<close> objects, all with the same bucket key, be added to a fresh counter,
  with \<open>k \<le> 2\<^sup>5\<^sup>3\<close>, and \<open>k \<ge> 1\<close> unless the key is one of the pre-seeded ones. Then the
  flush writes the value \<open>k\<close> for that bucket, every other bucket keeps the count it had in
  the fresh counter, so that every other pre-seeded bucket is flushed as 0, and each
  single \<^verbatim>\<open>Add\<close> stores under its own key the count it read plus one and changes no other
  entry.
\<close>

theorem same_bucket_adds:
  assumes "\<forall>vpa \<in> set vpas. bucket_key vpa = key"
    and "vpas \<noteq> [] \<or> mode key \<in> set modes"
    and "int (length vpas) \<le> 2 ^ 53"
    and "range_order (cnt (AddAll NewObjectCounter vpas)) ks"
  shows "gauge_value (snd (Observe ks (AddAll NewObjectCounter vpas) g))
        [mode key, Sprintf_v (has key)] = Some (of_nat (length vpas))
    \<and> (\<forall>k. k \<noteq> key \<longrightarrow> cnt (AddAll NewObjectCounter vpas) k = cnt NewObjectCounter k)
    \<and> (\<forall>k. k \<noteq> key \<and> mode k \<in> set modes \<longrightarrow>
          gauge_value (snd (Observe ks (AddAll NewObjectCounter vpas) g))
            [mode k, Sprintf_v (has k)] = Some 0)
    \<and> (\<forall>oc vpa. cnt (Add oc vpa)
          = (cnt oc)(bucket_key vpa \<mapsto> index_or_zero (cnt oc) (bucket_key vpa) + 1))"
proof -
  let ?oc = "AddAll NewObjectCounter vpas"
  have keys: "bucket_key ` set vpas \<subseteq> {key}"
    using assms(1) by auto
  have n: "length vpas \<le> 2 ^ 53"
    using assms(3) by (simp only: of_nat_le_numeral_power_cancel_iff)
  have "key \<in> dom (cnt ?oc)"
  proof (cases vpas)
    case Nil
    with assms(2) show ?thesis by (simp add: domIff cnt_NewObjectCounter)
  next
    case (Cons vpa vpas')
    with assms(1) have "key \<in> bucket_key ` set vpas" by force
    then show ?thesis by (simp add: dom_AddAll_fresh)
  qed
  then have "gauge_value (snd (Observe ks ?oc g)) [mode key, Sprintf_v (has key)]
      = Some (float64_of_int64 (of_nat (count_list (map bucket_key vpas) key)))"
    by (rule gauge_value_flush_AddAll [OF assms(4)])
  then have 1: "gauge_value (snd (Observe ks ?oc g)) [mode key, Sprintf_v (has key)]
      = Some (of_nat (length vpas))"
    using assms(1) n by (simp add: count_list_all_same float64_of_int64_of_nat)
  have 2: "cnt ?oc k = cnt NewObjectCounter k" if "k \<noteq> key" for k
    using that keys by (auto simp: AddAll_cnt)
  have 3: "gauge_value (snd (Observe ks ?oc g)) [mode k, Sprintf_v (has k)] = Some 0"
    if "k \<noteq> key \<and> mode k \<in> set modes" for k
  proof -
    from that have "cnt ?oc k = Some 0"
      by (simp add: 2 cnt_NewObjectCounter)
    with gauge_value_Observe [OF assms(4), of g k] show ?thesis
      by simp
  qed
  from 1 2 3 Add_cnt show ?thesis by blast
qed

theorem same_bucket_adds_witness:
  "bucket_key example_vpa = \<lparr>mode = ''Auto'', has = True\<rparr>
    \<and> int (length [example_vpa, example_vpa, example_vpa]) \<le> 2 ^ 53
    \<and> range_order (cnt (AddAll NewObjectCounter [example_vpa, example_vpa, example_vpa]))
        seeded_keys
    \<and> gauge_value (snd (Observe seeded_keys
          (AddAll NewObjectCounter [example_vpa, example_vpa, example_vpa]) []))
        [''Auto'', ''true''] = Some 3
    \<and> gauge_value (snd (Observe seeded_keys
          (AddAll NewObjectCounter [example_vpa, example_vpa, example_vpa]) []))
        [''Off'', ''false''] = Some 0"
proof -
  let ?vpas = "[example_vpa, example_vpa, example_vpa]"
  let ?key = "\<lparr>mode = ''Auto'', has = True\<rparr>"
  have k: "\<forall>vpa \<in> set ?vpas. bucket_key vpa = ?key"
    by (simp add: bucket_key_def example_vpa_def)
  have l: "int (length ?vpas) \<le> 2 ^ 53" by simp
  have "cnt (AddAll NewObjectCounter ?vpas) = (cnt NewObjectCounter)(?key \<mapsto> 3)"
    by (simp add: Add_cnt index_or_zero_def cnt_NewObjectCounter set_modes bucket_key_def
        example_vpa_def)
  then have r: "range_order (cnt (AddAll NewObjectCounter ?vpas)) seeded_keys"
    using range_order_seeded_keys [of 3] by simp
  have ne: "?vpas \<noteq> [] \<or> mode ?key \<in> set modes" by simp
  note t = same_bucket_adds [OF k ne l r, of "[]"]
  from t have a: "gauge_value (snd (Observe seeded_keys (AddAll NewObjectCounter ?vpas) []))
      [''Auto'', ''true''] = Some 3"
    by (simp add: Sprintf_v_def)
  from t have "\<forall>k. k \<noteq> ?key \<and> mode k \<in> set modes \<longrightarrow>
      gauge_value (snd (Observe seeded_keys (AddAll NewObjectCounter ?vpas) []))
        [mode k, Sprintf_v (has k)] = Some 0"
    by blast
  from this [THEN spec, of "\<lparr>mode = ''Off'', has = False\<rparr>"]
  have b: "gauge_value (snd (Observe seeded_keys (AddAll NewObjectCounter ?vpas) []))
      [''Off'', ''false''] = Some 0"
    by (simp add: Sprintf_v_def set_modes)
  have "bucket_key example_vpa = ?key"
    by (simp add: bucket_key_def example_vpa_def)
  with l r a b show ?thesis by (intro conjI)
qed

text \<open>
  The bound on \<open>k\<close> is needed: the count is converted to \<^verbatim>\<open>float64\<close> when it is flushed,
  and after \<open>2\<^sup>5\<^sup>3 + 1\<close> additions to the bucket of mode Auto with a recommendation the
  value written is \<open>2\<^sup>5\<^sup>3\<close>, not the number of additions.
\<close>

theorem same_bucket_adds_counterexample:
  "bucket_key example_vpa = \<lparr>mode = ''Auto'', has = True\<rparr>
    \<and> range_order (cnt (AddAll NewObjectCounter (replicate 9007199254740993 example_vpa)))
        seeded_keys
    \<and> gauge_value (snd (Observe seeded_keys
          (AddAll NewObjectCounter (replicate 9007199254740993 example_vpa)) []))
        [''Auto'', ''true''] = Some 9007199254740992
    \<and> gauge_value (snd (Observe seeded_keys
          (AddAll NewObjectCounter (replicate 9007199254740993 example_vpa)) []))
        [''Auto'', ''true''] \<noteq> Some 9007199254740993"
proof -
  have k: "bucket_key example_vpa = \<lparr>mode = ''Auto'', has = True\<rparr>"
    by (simp add: bucket_key_def example_vpa_def)
  have n: "(0::nat) < 9007199254740993"
    by simp
  have r: "range_order (cnt (AddAll NewObjectCounter (replicate 9007199254740993 example_vpa)))
      seeded_keys"
    using n by (rule range_order_replicate_example)
  from gauge_value_replicate_example [OF n]
  have "gauge_value (snd (Observe seeded_keys
        (AddAll NewObjectCounter (replicate 9007199254740993 example_vpa)) []))
      [''Auto'', ''true''] = Some (float64_of_int64 9007199254740993)"
    by (simp only: of_nat_numeral)
  moreover have "float64_of_int64 9007199254740993 = 9007199254740992"
    by code_simp
  ultimately have v: "gauge_value (snd (Observe seeded_keys
        (AddAll NewObjectCounter (replicate 9007199254740993 example_vpa)) []))
      [''Auto'', ''true''] = Some 9007199254740992"
    by (simp only:)
  have "Some (9007199254740992 :: rat) \<noteq> Some 9007199254740993"
    by simp
  with v have w: "gauge_value (snd (Observe seeded_keys
        (AddAll NewObjectCounter (replicate 9007199254740993 example_vpa)) []))
      [''Auto'', ''true''] \<noteq> Some 9007199254740993"
    by (simp only: not_False_eq_True)
  from k r v w show ?thesis
    by (intro conjI)
qed

text \<open>
  C5. An object whose mode pointer is nil is counted by \<^verbatim>\<open>Add\<close> under the key with the empty
  mode string: that bucket's count goes up by one and no other entry changes, and there
  is no error path. The empty string is none of the four named modes. In particular,
  adding one such object without a recommendation to a fresh counter leaves 1 in the
  bucket of the empty mode without a recommendation, and 0 in the bucket of mode Auto
  with a recommendation.
\<close>

theorem unset_mode_bucket:
  assumes "UpdateMode vpa = None"
  shows "cnt (Add oc vpa)
      = (cnt oc)(\<lparr>mode = '''', has = HasRecommendation vpa\<rparr>
          \<mapsto> index_or_zero (cnt oc) \<lparr>mode = '''', has = HasRecommendation vpa\<rparr> + 1)
    \<and> '''' \<notin> set modes
    \<and> (\<not> HasRecommendation vpa \<longrightarrow>
          cnt (Add NewObjectCounter vpa) \<lparr>mode = '''', has = False\<rparr> = Some 1
        \<and> cnt (Add NewObjectCounter vpa) \<lparr>mode = ''Auto'', has = True\<rparr> = Some 0)"
proof -
  from assms have k: "bucket_key vpa = \<lparr>mode = '''', has = HasRecommendation vpa\<rparr>"
    by (simp add: bucket_key_def)
  have 1: "cnt (Add oc vpa)
      = (cnt oc)(\<lparr>mode = '''', has = HasRecommendation vpa\<rparr>
          \<mapsto> index_or_zero (cnt oc) \<lparr>mode = '''', has = HasRecommendation vpa\<rparr> + 1)" for oc
    by (simp add: Add_cnt k)
  have 2: "'''' \<notin> set modes"
    by (simp add: set_modes)
  have 3: "cnt (Add NewObjectCounter vpa) \<lparr>mode = '''', has = False\<rparr> = Some 1
      \<and> cnt (Add NewObjectCounter vpa) \<lparr>mode = ''Auto'', has = True\<rparr> = Some 0"
    if "\<not> HasRecommendation vpa"
    using that by (simp add: 1 cnt_NewObjectCounter set_modes)
  from 1 2 3 show ?thesis by blast
qed

theorem unset_mode_bucket_witness:
  "UpdateMode unset_vpa = None
    \<and> cnt (Add NewObjectCounter unset_vpa) \<lparr>mode = '''', has = False\<rparr> = Some 1
    \<and> cnt (Add NewObjectCounter unset_vpa) \<lparr>mode = ''Auto'', has = True\<rparr> = Some 0"
proof -
  have u: "UpdateMode unset_vpa = None"
    by (simp add: unset_vpa_def)
  have h: "\<not> HasRecommendation unset_vpa"
    by (simp add: unset_vpa_def)
  from unset_mode_bucket [OF u, of NewObjectCounter] u h show ?thesis
    by blast
qed

text \<open>
  C6 (amended). Within each branch \<^verbatim>\<open>toFloat64\<close> is monotone in the accessor the branch
  reads. For two quantities whose plain values are both above 10,000,000, the result
  for the one with the smaller or equal plain value is at most the result for the other,
  whatever their milli-values are. For two quantities whose plain values are both at or
  below 10,000,000, the result for the one with the smaller or equal milli-value is at
  most the result for the other. Both the conversion to \<^verbatim>\<open>float64\<close> and the rounded
  product with \<^verbatim>\<open>0.001\<close> preserve the order.
\<close>

theorem toFloat64_monotone:
  "(10000000 < sint (Value q1) \<and> 10000000 < sint (Value q2)
      \<and> sint (Value q1) \<le> sint (Value q2) \<longrightarrow> toFloat64 q1 \<le> toFloat64 q2)
    \<and> (sint (Value q1) \<le> 10000000 \<and> sint (Value q2) \<le> 10000000
      \<and> sint (MilliValue q1) \<le> sint (MilliValue q2) \<longrightarrow> toFloat64 q1 \<le> toFloat64 q2)"
proof (intro conjI impI)
  assume "10000000 < sint (Value q1) \<and> 10000000 < sint (Value q2)
      \<and> sint (Value q1) \<le> sint (Value q2)"
  then show "toFloat64 q1 \<le> toFloat64 q2"
    by (simp add: toFloat64_def Let_def word_sless_alt float64_of_int64_mono)
next
  assume "sint (Value q1) \<le> 10000000 \<and> sint (Value q2) \<le> 10000000
      \<and> sint (MilliValue q1) \<le> sint (MilliValue q2)"
  then show "toFloat64 q1 \<le> toFloat64 q2"
    by (simp add: toFloat64_def Let_def word_sless_alt float64_mul_0_001_mono)
qed

theorem toFloat64_monotone_witness:
  "10000000 < sint (Value (Read quantity_20000000))
    \<and> 10000000 < sint (Value (Read quantity_1Ei))
    \<and> sint (Value (Read quantity_20000000)) \<le> sint (Value (Read quantity_1Ei))
    \<and> sint (MilliValue (Read quantity_1Ei)) < sint (MilliValue (Read quantity_20000000))
    \<and> toFloat64 (Read quantity_20000000) \<le> toFloat64 (Read quantity_1Ei)
    \<and> sint (Value (cpu_milli 100)) \<le> 10000000
    \<and> sint (Value (cpu_milli 200)) \<le> 10000000
    \<and> sint (MilliValue (cpu_milli 100)) \<le> sint (MilliValue (cpu_milli 200))
    \<and> toFloat64 (cpu_milli 100) \<le> toFloat64 (cpu_milli 200)"
proof -
  have 1: "10000000 < sint (Value (Read quantity_20000000))"
    by (simp add: quantity_20000000_def)
  have 2: "10000000 < sint (Value (Read quantity_1Ei))"
    by (simp add: quantity_1Ei_def)
  have 3: "sint (Value (Read quantity_20000000)) \<le> sint (Value (Read quantity_1Ei))"
    by (simp add: quantity_20000000_def quantity_1Ei_def)
  have 4: "sint (MilliValue (Read quantity_1Ei)) < sint (MilliValue (Read quantity_20000000))"
    by (simp add: quantity_20000000_def quantity_1Ei_def)
  from 1 2 3 have 5: "10000000 < sint (Value (Read quantity_20000000))
      \<and> 10000000 < sint (Value (Read quantity_1Ei))
      \<and> sint (Value (Read quantity_20000000)) \<le> sint (Value (Read quantity_1Ei))"
    by (intro conjI)
  have 6: "sint (Value (cpu_milli 100)) \<le> 10000000"
    by (simp add: cpu_milli_def)
  have 7: "sint (Value (cpu_milli 200)) \<le> 10000000"
    by (simp add: cpu_milli_def)
  have 8: "sint (MilliValue (cpu_milli 100)) \<le> sint (MilliValue (cpu_milli 200))"
    by (simp add: cpu_milli_def)
  from 6 7 8 have 9: "sint (Value (cpu_milli 100)) \<le> 10000000
      \<and> sint (Value (cpu_milli 200)) \<le> 10000000
      \<and> sint (MilliValue (cpu_milli 100)) \<le> sint (MilliValue (cpu_milli 200))"
    by (intro conjI)
  note a = toFloat64_monotone [of "Read quantity_20000000" "Read quantity_1Ei", THEN conjunct1,
      THEN mp, OF 5]
  note b = toFloat64_monotone [of "cpu_milli 100" "cpu_milli 200", THEN conjunct2, THEN mp, OF 9]
  from 1 2 3 4 a 6 7 8 b show ?thesis
    by (intro conjI)
qed

text \<open>
  In the order of the quantities themselves the claim fails where an accessor has
  overflowed. The quantity 1 is below the quantity 10E, the plain values of both are at
  or below 10,000,000 as \<^verbatim>\<open>Value()\<close> returns them, and the results are 1 and 0. The
  quantity 20000000 is below the quantity 10E too, both amounts are above 10,000,000, and
  the results are 20000000 and 0.
\<close>

theorem toFloat64_monotone_counterexample:
  "Exact quantity_1 < Exact quantity_10E
    \<and> sint (Value (Read quantity_1)) \<le> 10000000
    \<and> sint (Value (Read quantity_10E)) \<le> 10000000
    \<and> toFloat64 (Read quantity_1) = 1
    \<and> toFloat64 (Read quantity_10E) = 0
    \<and> \<not> toFloat64 (Read quantity_1) \<le> toFloat64 (Read quantity_10E)
    \<and> Exact quantity_20000000 < Exact quantity_10E
    \<and> 10000000 < Exact quantity_20000000
    \<and> 10000000 < Exact quantity_10E
    \<and> toFloat64 (Read quantity_20000000) = 20000000
    \<and> \<not> toFloat64 (Read quantity_20000000) \<le> toFloat64 (Read quantity_10E)"
proof -
  have 1: "Exact quantity_1 < Exact quantity_10E"
    by (simp add: quantity_1_def quantity_10E_def)
  have 2: "sint (Value (Read quantity_1)) \<le> 10000000"
    by (simp add: quantity_1_def)
  have 3: "sint (Value (Read quantity_10E)) \<le> 10000000"
    by (simp add: quantity_10E_def)
  have "toFloat64 \<lparr>Value = 1, MilliValue = 1000\<rparr> = 1"
    by code_simp
  then have 4: "toFloat64 (Read quantity_1) = 1"
    by (simp add: quantity_1_def)
  have "toFloat64 \<lparr>Value = 0, MilliValue = 0\<rparr> = 0"
    by code_simp
  then have 5: "toFloat64 (Read quantity_10E) = 0"
    by (simp add: quantity_10E_def)
  have 6: "\<not> toFloat64 (Read quantity_1) \<le> toFloat64 (Read quantity_10E)"
    unfolding 4 5 by simp
  have 7: "Exact quantity_20000000 < Exact quantity_10E"
    by (simp add: quantity_20000000_def quantity_10E_def)
  have 8: "10000000 < Exact quantity_20000000"
    by (simp add: quantity_20000000_def)
  have 9: "10000000 < Exact quantity_10E"
    by (simp add: quantity_10E_def)
  have "toFloat64 \<lparr>Value = 20000000, MilliValue = 20000000000\<rparr> = 20000000"
    by code_simp
  then have 10: "toFloat64 (Read quantity_20000000) = 20000000"
    by (simp add: quantity_20000000_def)
  have 11: "\<not> toFloat64 (Read quantity_20000000) \<le> toFloat64 (Read quantity_10E)"
    unfolding 10 5 by simp
  from 1 2 3 4 5 6 7 8 9 10 11 show ?thesis
    by (intro conjI)
qed

text \<open>
  C7. \<^verbatim>\<open>Observe\<close> returns the counter as it was. A second flush of the same counter, in
  whatever order it visits the buckets, writes the same label/value pairs as the first,
  and leaves every gauge at the value it had after the first.
\<close>

theorem flush_read_only:
  assumes "range_order (cnt oc) ks1" and "range_order (cnt oc) ks2"
  shows "fst (Observe ks1 oc g) = oc
    \<and> fst (Observe ks2 (fst (Observe ks1 oc g)) (snd (Observe ks1 oc g))) = oc
    \<and> (\<forall>lvs. gauge_value (snd (Observe ks2 (fst (Observe ks1 oc g)) (snd (Observe ks1 oc g)))) lvs
          = gauge_value (snd (Observe ks1 oc g)) lvs)
    \<and> mset (drop (length (snd (Observe ks1 oc g)))
          (snd (Observe ks2 (fst (Observe ks1 oc g)) (snd (Observe ks1 oc g)))))
        = mset (drop (length g) (snd (Observe ks1 oc g)))"
proof -
  let ?w = "map (\<lambda>(k, v). ([mode k, Sprintf_v (has k)], float64_of_int64 v))"
  let ?e1 = "range_entries (cnt oc) ks1" and ?e2 = "range_entries (cnt oc) ks2"
  have o1: "Observe ks1 oc g = (oc, g @ ?w ?e1)"
    by (simp add: Observe_writes)
  have o2: "Observe ks2 oc (g @ ?w ?e1) = (oc, (g @ ?w ?e1) @ ?w ?e2)"
    by (simp add: Observe_writes)
  have l1: "lists_entries (cnt oc) ?e1" and l2: "lists_entries (cnt oc) ?e2"
    using assms by (simp_all add: range_order_lists_entries)
  have m: "map_of (rev (?w ?e1)) = map_of (rev (?w ?e2))"
    using l1 l2 by (rule map_of_rev_flushed)
  have v: "gauge_value ((g @ ?w ?e1) @ ?w ?e2) lvs = gauge_value (g @ ?w ?e1) lvs" for lvs
  proof (cases "map_of (rev (?w ?e2)) lvs")
    case None
    then show ?thesis
      by (simp only: gauge_value_append [of "g @ ?w ?e1"] option.case)
  next
    case (Some x)
    then show ?thesis
      by (simp only: gauge_value_append [of "g @ ?w ?e1"] gauge_value_append [of g] m option.case)
  qed
  have "mset ?e2 = mset ?e1"
    using l2 l1 by (rule lists_entries_mset)
  then have w: "mset (?w ?e2) = mset (?w ?e1)"
    by simp
  have d1: "drop (length g) (g @ ?w ?e1) = ?w ?e1"
    by simp
  have d2: "drop (length (g @ ?w ?e1)) ((g @ ?w ?e1) @ ?w ?e2) = ?w ?e2"
    by (rule append_eq_conv_conj [THEN iffD1, THEN conjunct2, symmetric]) (rule refl)
  show ?thesis
    unfolding o1 fst_conv snd_conv o2 d1 d2
  proof (intro conjI allI)
    show "oc = oc" ..
    show "oc = oc" ..
    show "gauge_value ((g @ ?w ?e1) @ ?w ?e2) lvs = gauge_value (g @ ?w ?e1) lvs" for lvs
      by (rule v)
    show "mset (?w ?e2) = mset (?w ?e1)"
      by (rule w)
  qed
qed

theorem flush_read_only_witness:
  "range_order (cnt NewObjectCounter) seeded_keys
    \<and> range_order (cnt NewObjectCounter) (rev seeded_keys)
    \<and> fst (Observe seeded_keys NewObjectCounter []) = NewObjectCounter
    \<and> gauge_value (snd (Observe (rev seeded_keys)
          (fst (Observe seeded_keys NewObjectCounter []))
          (snd (Observe seeded_keys NewObjectCounter [])))) [''Auto'', ''true'']
      = gauge_value (snd (Observe seeded_keys NewObjectCounter [])) [''Auto'', ''true'']"
proof -
  have r: "range_order (cnt NewObjectCounter) (rev seeded_keys)"
    using range_order_fresh by (rule range_order_rev)
  note t = flush_read_only [OF range_order_fresh r, of "[]"]
  from t have a: "fst (Observe seeded_keys NewObjectCounter []) = NewObjectCounter"
    by (rule conjunct1)
  from t [THEN conjunct2, THEN conjunct2, THEN conjunct1, THEN spec, of "[''Auto'', ''true'']"]
  have b: "gauge_value (snd (Observe (rev seeded_keys)
          (fst (Observe seeded_keys NewObjectCounter []))
          (snd (Observe seeded_keys NewObjectCounter [])))) [''Auto'', ''true'']
      = gauge_value (snd (Observe seeded_keys NewObjectCounter [])) [''Auto'', ''true'']" .
  from range_order_fresh r a b show ?thesis
    by (intro conjI)
qed

text \<open>
  C8. When the bucket key of an object is not in the counter's map, which is the case in
  a fresh counter for every mode string other than the four recognised ones, \<^verbatim>\<open>Add\<close>
  creates the bucket with count 1 and leaves every other entry as it was, and a
  following flush reports 1 for it.
\<close>

theorem unseeded_bucket_created:
  assumes "cnt oc (bucket_key vpa) = None"
    and "range_order (cnt (Add oc vpa)) ks"
  shows "cnt (Add oc vpa) (bucket_key vpa) = Some 1
    \<and> gauge_value (snd (Observe ks (Add oc vpa) g))
        [mode (bucket_key vpa), Sprintf_v (has (bucket_key vpa))] = Some 1
    \<and> (\<forall>k. k \<noteq> bucket_key vpa \<longrightarrow> cnt (Add oc vpa) k = cnt oc k)
    \<and> (mode (bucket_key vpa) \<notin> set modes \<longrightarrow> cnt NewObjectCounter (bucket_key vpa) = None)"
proof -
  from assms(1) have 1: "cnt (Add oc vpa) (bucket_key vpa) = Some 1"
    by (simp add: Add_cnt index_or_zero_def)
  with gauge_value_Observe [OF assms(2), of g "bucket_key vpa"]
  have 2: "gauge_value (snd (Observe ks (Add oc vpa) g))
      [mode (bucket_key vpa), Sprintf_v (has (bucket_key vpa))] = Some 1"
    by simp
  have 3: "\<forall>k. k \<noteq> bucket_key vpa \<longrightarrow> cnt (Add oc vpa) k = cnt oc k"
    by (simp add: Add_cnt)
  have 4: "mode (bucket_key vpa) \<notin> set modes \<longrightarrow> cnt NewObjectCounter (bucket_key vpa) = None"
    by (simp add: cnt_NewObjectCounter)
  from 1 2 3 4 show ?thesis by blast
qed

theorem unseeded_bucket_created_witness:
  "cnt NewObjectCounter (bucket_key strange_vpa) = None
    \<and> range_order (cnt (Add NewObjectCounter strange_vpa))
        (seeded_keys @ [\<lparr>mode = ''Manual'', has = False\<rparr>])
    \<and> gauge_value (snd (Observe (seeded_keys @ [\<lparr>mode = ''Manual'', has = False\<rparr>])
          (Add NewObjectCounter strange_vpa) [])) [''Manual'', ''false''] = Some 1"
proof -
  let ?ks = "seeded_keys @ [\<lparr>mode = ''Manual'', has = False\<rparr>]"
  have k: "bucket_key strange_vpa = \<lparr>mode = ''Manual'', has = False\<rparr>"
    by (simp add: bucket_key_def strange_vpa_def)
  have n: "cnt NewObjectCounter (bucket_key strange_vpa) = None"
    by (simp add: k cnt_NewObjectCounter set_modes)
  have "distinct ?ks"
    by (simp add: seeded_keys_def)
  moreover have "set ?ks = dom (cnt (Add NewObjectCounter strange_vpa))"
    by (simp add: Add_cnt k set_seeded_keys dom_NewObjectCounter)
  ultimately have r: "range_order (cnt (Add NewObjectCounter strange_vpa)) ?ks"
    by (simp add: range_order_def)
  from unseeded_bucket_created [OF n r, of "[]"] n r show ?thesis
    by (simp add: k Sprintf_v_def)
qed




text \<open>
  C10 (amended). After \<open>n\<close> calls of \<^verbatim>\<open>Add\<close> on a fresh counter, with \<open>n < 2\<^sup>6\<^sup>3\<close>, every bucket
  count is non-negative and the counts of all buckets sum to \<open>n\<close>. For every \<open>n\<close>, the
  counter's map depends only on the multiset of the bucket keys added, not on the order
  of the calls, and so does the multiset of the label/value pairs a flush writes.
\<close>

theorem counts_sum_to_number_of_adds:
  "(int (length vpas) < 2 ^ 63 \<longrightarrow>
      (\<forall>k c. cnt (AddAll NewObjectCounter vpas) k = Some c \<longrightarrow> 0 \<le> sint c)
      \<and> (\<Sum>k \<in> dom (cnt (AddAll NewObjectCounter vpas)).
            sint (index_or_zero (cnt (AddAll NewObjectCounter vpas)) k)) = int (length vpas))
    \<and> (\<forall>vpas'. mset (map bucket_key vpas') = mset (map bucket_key vpas) \<longrightarrow>
          cnt (AddAll NewObjectCounter vpas') = cnt (AddAll NewObjectCounter vpas)
        \<and> (\<forall>ks ks' g. range_order (cnt (AddAll NewObjectCounter vpas)) ks
              \<and> range_order (cnt (AddAll NewObjectCounter vpas')) ks' \<longrightarrow>
            mset (drop (length g) (snd (Observe ks' (AddAll NewObjectCounter vpas') g)))
            = mset (drop (length g) (snd (Observe ks (AddAll NewObjectCounter vpas) g)))))"
proof -
  let ?oc = "AddAll NewObjectCounter vpas"
  have 1: "0 \<le> sint c" if assms: "int (length vpas) < 2 ^ 63" and "cnt ?oc k = Some c" for k c
  proof -
    from that(2) have "index_or_zero (cnt ?oc) k = c"
      by (simp add: index_or_zero_def)
    with sint_count_fresh [OF assms, of k] show ?thesis
      by simp
  qed
  have 2: "(\<Sum>k \<in> dom (cnt ?oc). sint (index_or_zero (cnt ?oc) k)) = int (length vpas)"
    if "int (length vpas) < 2 ^ 63"
    using that by (rule sum_counts_fresh)
  have 3: "cnt (AddAll NewObjectCounter vpas') = cnt ?oc
      \<and> (\<forall>ks ks' g. range_order (cnt ?oc) ks
            \<and> range_order (cnt (AddAll NewObjectCounter vpas')) ks' \<longrightarrow>
          mset (drop (length g) (snd (Observe ks' (AddAll NewObjectCounter vpas') g)))
          = mset (drop (length g) (snd (Observe ks ?oc g))))"
    if "mset (map bucket_key vpas') = mset (map bucket_key vpas)" for vpas'
  proof -
    from that have e: "cnt (AddAll NewObjectCounter vpas') = cnt ?oc"
      by (rule cnt_AddAll_mset)
    have "mset (drop (length g) (snd (Observe ks' (AddAll NewObjectCounter vpas') g)))
          = mset (drop (length g) (snd (Observe ks ?oc g)))"
      if "range_order (cnt ?oc) ks \<and> range_order (cnt (AddAll NewObjectCounter vpas')) ks'"
      for ks ks' g
      using that [THEN conjunct1] that [THEN conjunct2] e by (rule flushed_mset)
    with e show ?thesis
      by (intro conjI allI impI)
  qed
  show ?thesis
  proof (intro conjI allI impI)
    show "0 \<le> sint c" if "int (length vpas) < 2 ^ 63" and "cnt ?oc k = Some c" for k c
      using that by (rule 1)
    show "(\<Sum>k \<in> dom (cnt ?oc). sint (index_or_zero (cnt ?oc) k)) = int (length vpas)"
      if "int (length vpas) < 2 ^ 63"
      using that by (rule 2)
    show "cnt (AddAll NewObjectCounter vpas') = cnt ?oc"
      if "mset (map bucket_key vpas') = mset (map bucket_key vpas)" for vpas'
      using 3 [OF that] by (rule conjunct1)
    show "mset (drop (length g) (snd (Observe ks' (AddAll NewObjectCounter vpas') g)))
          = mset (drop (length g) (snd (Observe ks ?oc g)))"
      if "mset (map bucket_key vpas') = mset (map bucket_key vpas)"
        and "range_order (cnt ?oc) ks \<and> range_order (cnt (AddAll NewObjectCounter vpas')) ks'"
      for vpas' ks ks' g
      using 3 [OF that(1)] that(2) by blast
  qed
qed

theorem counts_sum_to_number_of_adds_witness:
  "int (length [example_vpa, unset_vpa, example_vpa]) < 2 ^ 63
    \<and> (\<Sum>k \<in> dom (cnt (AddAll NewObjectCounter [example_vpa, unset_vpa, example_vpa])).
          sint (index_or_zero (cnt (AddAll NewObjectCounter [example_vpa, unset_vpa, example_vpa])) k))
        = 3
    \<and> cnt (AddAll NewObjectCounter [unset_vpa, example_vpa, example_vpa])
        = cnt (AddAll NewObjectCounter [example_vpa, unset_vpa, example_vpa])"
proof -
  let ?vpas = "[example_vpa, unset_vpa, example_vpa]"
  have l: "int (length ?vpas) < 2 ^ 63" by simp
  note t = counts_sum_to_number_of_adds [of ?vpas]
  from t [THEN conjunct1, THEN mp, OF l]
  have a: "(\<Sum>k \<in> dom (cnt (AddAll NewObjectCounter ?vpas)).
      sint (index_or_zero (cnt (AddAll NewObjectCounter ?vpas)) k)) = int (length ?vpas)"
    by (rule conjunct2)
  have m: "mset (map bucket_key [unset_vpa, example_vpa, example_vpa]) = mset (map bucket_key ?vpas)"
    by simp
  from t [THEN conjunct2, THEN spec, THEN mp, OF m]
  have b: "cnt (AddAll NewObjectCounter [unset_vpa, example_vpa, example_vpa])
      = cnt (AddAll NewObjectCounter ?vpas)"
    by (rule conjunct1)
  have "int (length ?vpas) = 3" by simp
  with l a b show ?thesis by (simp only:)
qed

text \<open>
  The bound on \<open>n\<close> is needed: the count is a 64-bit \<^verbatim>\<open>int\<close>, and after \<open>2\<^sup>6\<^sup>3\<close> additions to
  one bucket it has wrapped around to \<open>- 2\<^sup>6\<^sup>3\<close>.
\<close>

theorem counts_sum_to_number_of_adds_counterexample:
  "cnt (AddAll NewObjectCounter (replicate 9223372036854775808 example_vpa))
      \<lparr>mode = ''Auto'', has = True\<rparr> = Some 9223372036854775808
    \<and> sint (9223372036854775808 :: go_int) = - 9223372036854775808
    \<and> \<not> 0 \<le> sint (9223372036854775808 :: go_int)"
proof -
  have "(0::nat) < 9223372036854775808"
    by simp
  from cnt_AddAll_replicate_example [OF this]
  have "cnt (AddAll NewObjectCounter (replicate 9223372036854775808 example_vpa))
      \<lparr>mode = ''Auto'', has = True\<rparr> = Some (of_nat 9223372036854775808)"
    by (simp only: fun_upd_same)
  then have c: "cnt (AddAll NewObjectCounter (replicate 9223372036854775808 example_vpa))
      \<lparr>mode = ''Auto'', has = True\<rparr> = Some 9223372036854775808"
    by (simp only: of_nat_numeral)
  have s: "sint (9223372036854775808 :: go_int) = - 9223372036854775808"
    by code_simp
  then have "\<not> 0 \<le> sint (9223372036854775808 :: go_int)"
    by simp
  with c s show ?thesis
    by (intro conjI)
qed

end
